theory Spec2Isabelle
  imports Main "HOL-Library.Char_ord"
begin

section \<open>Strings and regular expressions of the host language\<close>

text \<open>
  HtmlParser.js works on JavaScript strings with regular expressions, most of
  them built by \<^verbatim>\<open>new RegExp\<close> from a source string into which a name is
  spliced. A string is modelled as a \<^typ>\<open>string\<close>: a list of code units below
  256. The patterns of the program use literal characters, character classes,
  greedy \<^verbatim>\<open>*\<close>, \<^verbatim>\<open>+\<close> and \<^verbatim>\<open>?\<close>, capturing groups, \<^verbatim>\<open>\b\<close>, \<^verbatim>\<open>^\<close> and
  \<^verbatim>\<open>$\<close>; \<open>rx\<close> is their abstract syntax, \<open>RegExp\<close> reads a source string into
  it, and \<open>ms\<close> is the backtracking matcher of the language standard, written
  as the list of all ways to match in the order in which backtracking tries
  them.
\<close>

text \<open>
  What a call can do instead of returning: throw a SyntaxError (\<^verbatim>\<open>new RegExp\<close> on
  a source that is no pattern), throw a TypeError (reading \<^verbatim>\<open>[0]\<close> of null), or
  never return (a loop that finds the same empty match again and again). A
  result is \<open>Inr\<close> of the value returned. \<open>Unmodelled\<close> stands for a pattern source
  with syntax that \<open>RegExp\<close> below does not read (alternation, braces, groups
  that begin with \<^verbatim>\<open>(?\<close>, lazy quantifiers, escapes of letters and digits other
  than \<^verbatim>\<open>\b\<close>): nothing is stated about what a call with such a source does.
\<close>

datatype error = SyntaxError | TypeError | NoReturn | Unmodelled

text \<open>\<open>Cls True rs\<close> is the class of the ranges \<open>rs\<close>, \<open>Cls False rs\<close> the negated
  class \<^verbatim>\<open>[^...]\<close>; \<open>Grp n r\<close> is the capturing group number \<open>n\<close>; \<open>WordB\<close>,
  \<open>Bol\<close> and \<open>Eol\<close> are \<^verbatim>\<open>\b\<close>, \<^verbatim>\<open>^\<close> and \<^verbatim>\<open>$\<close>.\<close>

datatype rx =
    Eps
  | Chr char
  | Cls bool "(char \<times> char) list"
  | Seq rx rx
  | Star rx
  | Plus rx
  | Opt rx
  | Grp nat rx
  | WordB
  | Bol
  | Eol

text \<open>
  A matcher state: the code unit before the current position (None at the start
  of the input), the input from the current position on, and the captures
  (entry k is group k; entry 0 is filled in by \<open>exec\<close> with the whole match).
\<close>

datatype st = St (prev: "char option") (rest: string) (caps: "string option list")

text \<open>The letters that have another case among the code units below 256, and the
  step of 32 between the two cases (bit 5 of the code unit).\<close>

definition is_upper :: "char \<Rightarrow> bool" where
  "is_upper c = ((CHR ''A'' \<le> c \<and> c \<le> CHR ''Z'') \<or> (CHR 0xC0 \<le> c \<and> c \<le> CHR 0xDE \<and> c \<noteq> CHR 0xD7))"

definition is_lower :: "char \<Rightarrow> bool" where
  "is_lower c = ((CHR ''a'' \<le> c \<and> c \<le> CHR ''z'') \<or> (CHR 0xE0 \<le> c \<and> c \<le> CHR 0xFE \<and> c \<noteq> CHR 0xF7))"

fun bit5 :: "bool \<Rightarrow> char \<Rightarrow> char" where
  "bit5 b (Char b0 b1 b2 b3 b4 b5 b6 b7) = Char b0 b1 b2 b3 b4 b b6 b7"

text \<open>Canonicalize of the standard: with the flag i a code unit is compared by its
  upper case, when that is one code unit.\<close>

definition canon :: "bool \<Rightarrow> char \<Rightarrow> char" where
  "canon ic c = (if ic \<and> is_lower c then bit5 False c else c)"

definition uncanon :: "char \<Rightarrow> char" where
  "uncanon c = (if is_upper c then bit5 True c else c)"

definition in_ranges :: "(char \<times> char) list \<Rightarrow> char \<Rightarrow> bool" where
  "in_ranges rs c = list_ex (\<lambda>(lo, hi). lo \<le> c \<and> c \<le> hi) rs"

text \<open>A class holds a code unit when one of its members has the same canonical form.\<close>

definition cls_mem :: "bool \<Rightarrow> (char \<times> char) list \<Rightarrow> char \<Rightarrow> bool" where
  "cls_mem ic rs c = (if ic then in_ranges rs c \<or> in_ranges rs (canon True c) \<or> in_ranges rs (uncanon c)
                      else in_ranges rs c)"

definition is_word :: "char \<Rightarrow> bool" where
  "is_word c = in_ranges [(CHR ''a'', CHR ''z''), (CHR ''A'', CHR ''Z''), (CHR ''0'', CHR ''9''), (CHR ''_'', CHR ''_'')] c"

definition word_before :: "st \<Rightarrow> bool" where
  "word_before s = (case prev s of None \<Rightarrow> False | Some c \<Rightarrow> is_word c)"

definition word_after :: "st \<Rightarrow> bool" where
  "word_after s = (case rest s of [] \<Rightarrow> False | c # _ \<Rightarrow> is_word c)"

fun grps :: "rx \<Rightarrow> nat list" where
  "grps (Seq a b) = grps a @ grps b"
| "grps (Star r) = grps r"
| "grps (Plus r) = grps r"
| "grps (Opt r) = grps r"
| "grps (Grp n r) = n # grps r"
| "grps _ = []"

text \<open>A quantifier forgets the captures of the groups in its body before each round.\<close>

definition clear :: "rx \<Rightarrow> st \<Rightarrow> st" where
  "clear r s = St (prev s) (rest s) (fold (\<lambda>n cs. cs[n := None]) (grps r) (caps s))"

definition capture :: "nat \<Rightarrow> st \<Rightarrow> st \<Rightarrow> st" where
  "capture n s t = St (prev t) (rest t)
     ((caps t)[n := Some (take (length (rest s) - length (rest t)) (rest s))])"

text \<open>The measure for the termination of \<open>ms\<close>: \<^verbatim>\<open>r+\<close> is one round of \<open>r\<close> and
  then \<^verbatim>\<open>r*\<close>.\<close>

fun weight :: "rx \<Rightarrow> nat" where
  "weight (Seq a b) = Suc (weight a + weight b)"
| "weight (Star r) = Suc (weight r)"
| "weight (Plus r) = Suc (Suc (weight r))"
| "weight (Opt r) = Suc (weight r)"
| "weight (Grp n r) = Suc (weight r)"
| "weight _ = 0"

text \<open>
  \<open>ms ic r s\<close>: the states in which a match of \<open>r\<close> from \<open>s\<close> can end, first choice
  first (\<open>ic\<close> is the flag i). A round of \<open>*\<close> or \<open>?\<close> that consumes nothing is
  rejected, as RepeatMatcher does.
\<close>

function ms :: "bool \<Rightarrow> rx \<Rightarrow> st \<Rightarrow> st list" where
  "ms ic Eps s = [s]"
| "ms ic (Chr c) s = (case rest s of [] \<Rightarrow> []
      | x # xs \<Rightarrow> if canon ic x = canon ic c then [St (Some x) xs (caps s)] else [])"
| "ms ic (Cls pos rs) s = (case rest s of [] \<Rightarrow> []
      | x # xs \<Rightarrow> if cls_mem ic rs x = pos then [St (Some x) xs (caps s)] else [])"
| "ms ic (Seq a b) s = concat (map (ms ic b) (ms ic a s))"
| "ms ic (Star r) s =
     concat (map (\<lambda>t. if length (rest t) < length (rest s) then ms ic (Star r) t else [])
                 (ms ic r (clear r s))) @ [s]"
| "ms ic (Plus r) s = concat (map (ms ic (Star r)) (ms ic r (clear r s)))"
| "ms ic (Opt r) s =
     filter (\<lambda>t. length (rest t) < length (rest s)) (ms ic r (clear r s)) @ [s]"
| "ms ic (Grp n r) s = map (capture n s) (ms ic r s)"
| "ms ic WordB s = (if word_before s = word_after s then [] else [s])"
| "ms ic Bol s = (case prev s of None \<Rightarrow> [s] | Some c \<Rightarrow> [])"
| "ms ic Eol s = (case rest s of [] \<Rightarrow> [s] | c # cs \<Rightarrow> [])"
  by pat_completeness auto
termination
  by (relation "measures [\<lambda>(ic, r, s). weight r, \<lambda>(ic, r, s). length (rest s)]") auto

declare ms.simps [simp del]

fun seqs :: "rx list \<Rightarrow> rx" where
  "seqs [] = Eps"
| "seqs (r # rs) = Seq r (seqs rs)"

definition start :: "rx \<Rightarrow> char option \<Rightarrow> string \<Rightarrow> st" where
  "start r p xs = St p xs (replicate (Suc (fold max (grps r) 0)) None)"

text \<open>The leftmost position, from \<open>i\<close> on, at which the pattern matches, with the
  first match there.\<close>

fun scan :: "bool \<Rightarrow> rx \<Rightarrow> char option \<Rightarrow> string \<Rightarrow> nat \<Rightarrow> (nat \<times> st) option" where
  "scan ic r p [] i = (case ms ic r (start r p []) of [] \<Rightarrow> None | t # ts \<Rightarrow> Some (i, t))"
| "scan ic r p (x # xs) i = (case ms ic r (start r p (x # xs)) of
       [] \<Rightarrow> scan ic r (Some x) xs (Suc i)
     | t # ts \<Rightarrow> Some (i, t))"

text \<open>A match object: \<^verbatim>\<open>match.index\<close>, \<^verbatim>\<open>match[0]\<close> and the groups
  (\<^verbatim>\<open>match[k]\<close> is \<open>grp m k\<close>, None when the group took no part).\<close>

datatype rmatch = RMatch (index: nat) (whole: string) (groups: "string option list")

definition grp :: "rmatch \<Rightarrow> nat \<Rightarrow> string option" where
  "grp m k = (if k < length (groups m) then groups m ! k else None)"

definition endIndex :: "rmatch \<Rightarrow> nat" where
  "endIndex m = index m + length (whole m)"

definition char_before :: "string \<Rightarrow> nat \<Rightarrow> char option" where
  "char_before str i = (if i = 0 then None else Some (str ! (i - 1)))"

text \<open>\<^verbatim>\<open>regex.exec(str)\<close> with \<^verbatim>\<open>regex.lastIndex = lastIndex\<close>.\<close>

definition exec :: "bool \<Rightarrow> rx \<Rightarrow> string \<Rightarrow> nat \<Rightarrow> rmatch option" where
  "exec ic r str lastIndex =
     (if length str < lastIndex then None
      else case scan ic r (char_before str lastIndex) (drop lastIndex str) lastIndex of
          None \<Rightarrow> None
        | Some (i, t) \<Rightarrow>
            Some (RMatch i (take (length str - length (rest t) - i) (drop i str)) (caps t)))"

text \<open>\<^verbatim>\<open>str.match(regex)\<close> and \<^verbatim>\<open>str.search(regex)\<close> for a regex without the flag g.\<close>

definition smatch :: "bool \<Rightarrow> rx \<Rightarrow> string \<Rightarrow> rmatch option" where
  "smatch ic r str = exec ic r str 0"

definition search :: "bool \<Rightarrow> rx \<Rightarrow> string \<Rightarrow> nat option" where
  "search ic r str = map_option index (exec ic r str 0)"

text \<open>\<^verbatim>\<open>str.substring(a, b)\<close>: both ends are clamped to the length and swapped when
  out of order.\<close>

definition substring :: "string \<Rightarrow> nat \<Rightarrow> nat \<Rightarrow> string" where
  "substring str a b =
     (let a' = min a (length str); b' = min b (length str)
      in take (max a' b' - min a' b') (drop (min a' b') str))"

text \<open>The truth value of a string or null in a condition: null and the empty string are
  false.\<close>

definition truthy :: "string option \<Rightarrow> bool" where
  "truthy v = (case v of None \<Rightarrow> False | Some w \<Rightarrow> w \<noteq> [])"

section \<open>Reading a pattern source\<close>

text \<open>
  \<^verbatim>\<open>new RegExp(source, flags)\<close> for the flags of the program (i and g, which are
  given to \<open>exec\<close>). The members of a class up to the closing bracket: single code
  units and ranges; a range out of order is a SyntaxError, and so is a class that
  is not closed.
\<close>

fun cls_items :: "string \<Rightarrow> (char \<times> char) list \<Rightarrow> error + ((char \<times> char) list \<times> string)" where
  "cls_items [] seen = Inl SyntaxError"
| "cls_items (c # cs) seen =
     (if c = CHR '']'' then Inr (rev seen, cs)
      else if c = CHR 0x5C then Inl Unmodelled
      else (case cs of
              x # d # cs' \<Rightarrow>
                if x = CHR ''-'' \<and> d \<noteq> CHR '']'' then
                  (if d = CHR 0x5C then Inl Unmodelled
                   else if d < c then Inl SyntaxError
                   else cls_items cs' ((c, d) # seen))
                else cls_items cs ((c, c) # seen)
            | _ \<Rightarrow> cls_items cs ((c, c) # seen)))"

lemma cls_items_length:
  "cls_items cs seen = Inr (rs, left) \<Longrightarrow> length left < length cs"
proof (induction cs seen rule: cls_items.induct)
  case (1 seen)
  then show ?case by simp
next
  case (2 c cs seen)
  then show ?case
    by (auto split: if_splits list.splits)
qed

declare cls_items.simps [simp del]

definition quantifiable :: "rx \<Rightarrow> bool" where
  "quantifiable t = (case t of Chr c \<Rightarrow> True | Cls b rs \<Rightarrow> True | Grp k r \<Rightarrow> True | _ \<Rightarrow> False)"

definition quantified :: "rx \<Rightarrow> bool" where
  "quantified t = (case t of Star r \<Rightarrow> True | Plus r \<Rightarrow> True | Opt r \<Rightarrow> True | _ \<Rightarrow> False)"

definition quant :: "char \<Rightarrow> rx \<Rightarrow> rx" where
  "quant c t = (if c = CHR ''*'' then Star t else if c = CHR ''+'' then Plus t else Opt t)"

definition is_alnum :: "char \<Rightarrow> bool" where
  "is_alnum c = in_ranges [(CHR ''a'', CHR ''z''), (CHR ''A'', CHR ''Z''), (CHR ''0'', CHR ''9'')] c"

text \<open>
  \<open>pa stack cur n src\<close> reads the rest \<open>src\<close> of a source: \<open>cur\<close> holds the terms of
  the sequence being read, last first, \<open>stack\<close> the open groups (the number of
  each and the terms before it), and \<open>n\<close> is the number of the next group. A
  quantifier with nothing to repeat, a \<^verbatim>\<open>)\<close> without its \<^verbatim>\<open>(\<close>, a group that is not
  closed and a \<^verbatim>\<open>\\<close> at the end are SyntaxErrors. A \<^verbatim>\<open>\\<close> before a code unit that
  is no letter or digit stands for that code unit.
\<close>

function pa :: "(nat \<times> rx list) list \<Rightarrow> rx list \<Rightarrow> nat \<Rightarrow> string \<Rightarrow> error + rx" where
  "pa stack cur n [] = (if stack = [] then Inr (seqs (rev cur)) else Inl SyntaxError)"
| "pa stack cur n (c # cs) =
     (if c = CHR ''('' then
        (case cs of
           [] \<Rightarrow> Inl SyntaxError
         | q # cs' \<Rightarrow> if q = CHR ''?'' then Inl Unmodelled
                      else pa ((n, cur) # stack) [] (Suc n) cs)
      else if c = CHR '')'' then
        (case stack of
           [] \<Rightarrow> Inl SyntaxError
         | (k, outer) # st \<Rightarrow> pa st (Grp k (seqs (rev cur)) # outer) n cs)
      else if c = CHR ''*'' \<or> c = CHR ''+'' \<or> c = CHR ''?'' then
        (case cur of
           [] \<Rightarrow> Inl SyntaxError
         | t # ts \<Rightarrow> if quantifiable t then pa stack (quant c t # ts) n cs
                     else if quantified t \<and> c = CHR ''?'' then Inl Unmodelled
                     else Inl SyntaxError)
      else if c = CHR ''['' then
        (case cs of
           [] \<Rightarrow> Inl SyntaxError
         | x # cs' \<Rightarrow>
             if x = CHR ''^'' then
               (case cls_items cs' [] of
                  Inl e \<Rightarrow> Inl e
                | Inr (rs, left) \<Rightarrow> pa stack (Cls False rs # cur) n left)
             else
               (case cls_items cs [] of
                  Inl e \<Rightarrow> Inl e
                | Inr (rs, left) \<Rightarrow> pa stack (Cls True rs # cur) n left))
      else if c = CHR 0x5C then
        (case cs of
           [] \<Rightarrow> Inl SyntaxError
         | x # cs' \<Rightarrow> if x = CHR ''b'' then pa stack (WordB # cur) n cs'
                      else if is_alnum x then Inl Unmodelled
                      else pa stack (Chr x # cur) n cs')
      else if c = CHR ''^'' then pa stack (Bol # cur) n cs
      else if c = CHR ''$'' then pa stack (Eol # cur) n cs
      else if c = CHR ''.'' then pa stack (Cls False [(CHR 0x0A, CHR 0x0A), (CHR 0x0D, CHR 0x0D)] # cur) n cs
      else if c = CHR ''|'' \<or> c = CHR ''{'' then Inl Unmodelled
      else pa stack (Chr c # cur) n cs)"
  by pat_completeness auto
termination
  by (relation "measure (\<lambda>(stack, cur, n, src). length src)")
     (auto dest!: cls_items_length cls_items_length[OF sym])

declare pa.simps [simp del]

definition RegExp :: "string \<Rightarrow> error + rx" where
  "RegExp source = pa [] [] 1 source"

section \<open>The matcher moves forward\<close>

lemma ms_suffix:
  "t \<in> set (ms ic r s) \<Longrightarrow> \<exists>w. rest s = w @ rest t"
proof (induction ic r s arbitrary: t rule: ms.induct)
  case (4 ic a b s)
  then obtain u where u: "u \<in> set (ms ic a s)" and t: "t \<in> set (ms ic b u)"
    by (auto simp: ms.simps(4))
  from "4.IH"(1)[OF u] obtain w1 where "rest s = w1 @ rest u" by blast
  moreover from "4.IH"(2)[OF u t] obtain w2 where "rest u = w2 @ rest t" by blast
  ultimately show ?case by simp
next
  case (5 ic r s)
  show ?case
  proof (cases "t = s")
    case True
    then show ?thesis by simp
  next
    case False
    with "5.prems" obtain u where u: "u \<in> set (ms ic r (clear r s))"
      and lt: "length (rest u) < length (rest s)" and t: "t \<in> set (ms ic (Star r) u)"
      unfolding ms.simps(5)[of ic r s] by (auto split: if_splits)
    from "5.IH"(1)[OF u] obtain w1 where "rest s = w1 @ rest u" by (auto simp: clear_def)
    moreover from "5.IH"(2)[OF u lt t] obtain w2 where "rest u = w2 @ rest t" by blast
    ultimately show ?thesis by simp
  qed
next
  case (6 ic r s)
  then obtain u where u: "u \<in> set (ms ic r (clear r s))" and t: "t \<in> set (ms ic (Star r) u)"
    by (auto simp: ms.simps(6))
  from "6.IH"(1)[OF u] obtain w1 where "rest s = w1 @ rest u" by (auto simp: clear_def)
  moreover from "6.IH"(2)[OF u t] obtain w2 where "rest u = w2 @ rest t" by blast
  ultimately show ?case by simp
next
  case (7 ic r s)
  then show ?case by (auto simp: ms.simps(7) clear_def)
next
  case (8 ic n r s)
  then show ?case by (auto simp: ms.simps(8) capture_def)
next
  case (2 ic c s)
  then show ?case by (cases "rest s") (auto simp: ms.simps(2) split: if_splits)
next
  case (3 ic pos rs s)
  then show ?case by (cases "rest s") (auto simp: ms.simps(3) split: if_splits)
qed (auto simp: ms.simps split: list.splits if_splits option.splits)

lemma ms_length: "t \<in> set (ms ic r s) \<Longrightarrow> length (rest t) \<le> length (rest s)"
  using ms_suffix[of t ic r s] by auto

lemma ms_Chr_first:
  assumes "t \<in> set (ms ic (Seq (Chr c) r) s)"
  shows "length (rest t) < length (rest s)"
proof -
  from assms obtain u where u: "u \<in> set (ms ic (Chr c) s)" and t: "t \<in> set (ms ic r u)"
    by (auto simp: ms.simps(4))
  from u have "length (rest u) < length (rest s)"
    by (cases "rest s") (auto simp: ms.simps(2) split: if_splits)
  with ms_length[OF t] show ?thesis by simp
qed

lemma ms_Bol_first: "t \<in> set (ms ic (Seq Bol r) s) \<Longrightarrow> t \<in> set (ms ic r s)"
  by (auto simp: ms.simps(4,10) split: option.splits)

lemma scan_Some:
  "scan ic r p xs i = Some (j, t) \<Longrightarrow>
     \<exists>k q. k \<le> length xs \<and> j = i + k \<and> t \<in> set (ms ic r (start r q (drop k xs)))"
proof (induction xs arbitrary: p i)
  case Nil
  then have "t \<in> set (ms ic r (start r p (drop 0 [])))" "j = i + 0"
    by (auto split: list.splits)
  then show ?case by fastforce
next
  case (Cons x xs)
  show ?case
  proof (cases "ms ic r (start r p (x # xs))")
    case Nil
    with Cons.prems have "scan ic r (Some x) xs (Suc i) = Some (j, t)" by simp
    from Cons.IH[OF this] obtain k q where "k \<le> length xs" "j = Suc i + k"
      "t \<in> set (ms ic r (start r q (drop k xs)))" by blast
    then have "Suc k \<le> length (x # xs) \<and> j = i + Suc k
        \<and> t \<in> set (ms ic r (start r q (drop (Suc k) (x # xs))))" by simp
    then show ?thesis by blast
  next
    case (Cons u us)
    with Cons.prems have "j = i" "t = u" by auto
    with Cons have "0 \<le> length (x # xs) \<and> j = i + 0
        \<and> t \<in> set (ms ic r (start r p (drop 0 (x # xs))))" by simp
    then show ?thesis by blast
  qed
qed

lemma exec_Some:
  assumes "exec ic r str li = Some m"
  shows "\<exists>t q. li \<le> index m \<and> index m \<le> length str
           \<and> t \<in> set (ms ic r (start r q (drop (index m) str)))
           \<and> drop (index m) str = whole m @ rest t \<and> groups m = caps t"
proof -
  from assms have li: "li \<le> length str"
    by (auto simp: exec_def split: if_splits)
  from assms obtain j t where sc: "scan ic r (char_before str li) (drop li str) li = Some (j, t)"
    and m: "m = RMatch j (take (length str - length (rest t) - j) (drop j str)) (caps t)"
    by (auto simp: exec_def split: if_splits option.splits)
  from scan_Some[OF sc] obtain k q where k: "k \<le> length (drop li str)" "j = li + k"
    and t: "t \<in> set (ms ic r (start r q (drop k (drop li str))))" by blast
  from k li have j: "li \<le> j" "j \<le> length str" by auto
  from t k have t': "t \<in> set (ms ic r (start r q (drop j str)))" by (simp add: add.commute)
  from ms_suffix[OF t'] obtain w where w: "drop j str = w @ rest t" by (auto simp: start_def)
  then have "length str - j = length w + length (rest t)"
    by (metis length_append length_drop)
  then have "length str - length (rest t) - j = length w" by simp
  with w m have "whole m = w" by simp
  with j t' w m show ?thesis by auto
qed

section \<open>extractElement\<close>

text \<open>The sources of the patterns that extractElement builds:
  \<^verbatim>\<open><${tagName}[^>]*>\<close> and \<^verbatim>\<open></${tagName}>\<close>, with \<^verbatim>\<open>^\<close> before them where the
  code has it. Every use has the flag i.\<close>

definition openSrc :: "string \<Rightarrow> string" where
  "openSrc tagName = ''<'' @ tagName @ ''[^>]*>''"

definition closeSrc :: "string \<Rightarrow> string" where
  "closeSrc tagName = ''</'' @ tagName @ ''>''"

text \<open>\<^verbatim>\<open>str.search(new RegExp(source, "i"))\<close> and
  \<^verbatim>\<open>str.match(new RegExp(source, "i"))\<close>.\<close>

definition search_i :: "string \<Rightarrow> string \<Rightarrow> error + nat option" where
  "search_i source str = (case RegExp source of Inl e \<Rightarrow> Inl e | Inr r \<Rightarrow> Inr (search True r str))"

definition match_i :: "string \<Rightarrow> string \<Rightarrow> error + rmatch option" where
  "match_i source str = (case RegExp source of Inl e \<Rightarrow> Inl e | Inr r \<Rightarrow> Inr (smatch True r str))"

text \<open>
  The loop of extractElement (lines 89 to 114), returning the final \<open>pos\<close>. A
  \<^verbatim>\<open>.match(...)[0]\<close> on null would throw a TypeError. An opening tag matched
  without moving \<open>pos\<close> would be matched again for ever, with \<open>depth\<close> growing:
  the outcome \<open>NoReturn\<close>.
\<close>

function extractLoop :: "string \<Rightarrow> string \<Rightarrow> nat \<Rightarrow> nat \<Rightarrow> error + nat" where
  "extractLoop html tagName depth pos =
     (if 0 < depth \<and> pos < length html then
        (case search_i (openSrc tagName) (drop pos html) of
           Inl e \<Rightarrow> Inl e
         | Inr nextOpen \<Rightarrow>
             (case search_i (closeSrc tagName) (drop pos html) of
                Inl e \<Rightarrow> Inl e
              | Inr None \<Rightarrow> Inr pos
              | Inr (Some nextClose) \<Rightarrow>
                  (case (case nextOpen of None \<Rightarrow> None
                          | Some opn \<Rightarrow> if opn < nextClose then Some opn else None) of
                     Some opn \<Rightarrow>
                       (case match_i (''^'' @ openSrc tagName) (drop (pos + opn) html) of
                          Inl e \<Rightarrow> Inl e
                        | Inr None \<Rightarrow> Inl TypeError
                        | Inr (Some m) \<Rightarrow>
                            if opn + length (whole m) = 0 then Inl NoReturn
                            else extractLoop html tagName (depth + 1) (pos + (opn + length (whole m))))
                   | None \<Rightarrow>
                       (case match_i (''^'' @ closeSrc tagName) (drop (pos + nextClose) html) of
                          Inl e \<Rightarrow> Inl e
                        | Inr None \<Rightarrow> Inl TypeError
                        | Inr (Some m) \<Rightarrow>
                            extractLoop html tagName (depth - 1)
                              (pos + (nextClose + length (whole m)))))))
      else Inr pos)"
  by pat_completeness auto
termination
  by (relation "measures [\<lambda>(html, tagName, depth, pos). length html - pos,
                          \<lambda>(html, tagName, depth, pos). depth]")
     (auto simp: neq_Nil_conv)

declare extractLoop.simps [simp del]

text \<open>extractElement builds openRegex and closeRegex first (lines 76 and 77), which it
  does not use; a source that is no pattern throws there.\<close>

definition extractElement :: "string \<Rightarrow> nat \<Rightarrow> string \<Rightarrow> error + string option" where
  "extractElement html startPos tagName =
     (case RegExp (openSrc tagName) of
        Inl e \<Rightarrow> Inl e
      | Inr openRegex \<Rightarrow>
          (case RegExp (closeSrc tagName) of
             Inl e \<Rightarrow> Inl e
           | Inr closeRegex \<Rightarrow>
               (case match_i (''^'' @ openSrc tagName) (drop startPos html) of
                  Inl e \<Rightarrow> Inl e
                | Inr None \<Rightarrow> Inr None
                | Inr (Some openMatch) \<Rightarrow>
                    (case extractLoop html tagName 1 (startPos + length (whole openMatch)) of
                       Inl e \<Rightarrow> Inl e
                     | Inr pos \<Rightarrow> Inr (Some (substring html startPos pos))))))"

section \<open>The finders\<close>

text \<open>A value spliced into a template literal: \<^verbatim>\<open>undefined\<close> is spliced as its name.\<close>

definition interp :: "string option \<Rightarrow> string" where
  "interp v = (case v of None \<Rightarrow> ''undefined'' | Some w \<Rightarrow> w)"

lemma exec_endIndex:
  assumes "exec ic r str li = Some m"
  shows "li \<le> index m \<and> endIndex m \<le> length str"
proof -
  from exec_Some[OF assms] obtain t where "li \<le> index m" "index m \<le> length str"
    and w: "drop (index m) str = whole m @ rest t" by blast
  moreover from w have "length str - index m = length (whole m) + length (rest t)"
    by (metis length_append length_drop)
  ultimately show ?thesis by (simp add: endIndex_def)
qed

text \<open>
  The loop \<^verbatim>\<open>while ((match = regex.exec(html)) !== null)\<close> of getByClass, getByTag
  and getByDataAttr, which differ in the pattern and in where tagName comes from
  (\<open>tagOf\<close>). \<open>lastIndex\<close> is \<^verbatim>\<open>regex.lastIndex\<close>, which exec sets to the end of the
  match; a match that leaves it where it was is found again for ever, which is
  the outcome \<open>NoReturn\<close>. The model keeps startPos beside each element it pushes, so
  that the order of the result can be stated; the finders return the elements.
\<close>

function collect ::
  "rx \<Rightarrow> (rmatch \<Rightarrow> string) \<Rightarrow> string \<Rightarrow> nat \<Rightarrow> (nat \<times> string) list \<Rightarrow> error + (nat \<times> string) list" where
  "collect regex tagOf html lastIndex elements =
     (case exec True regex html lastIndex of
        None \<Rightarrow> Inr elements
      | Some m \<Rightarrow>
          (case extractElement html (index m) (tagOf m) of
             Inl e \<Rightarrow> Inl e
           | Inr element \<Rightarrow>
               if endIndex m \<le> lastIndex then Inl NoReturn
               else collect regex tagOf html (endIndex m)
                      (case element of
                         None \<Rightarrow> elements
                       | Some el \<Rightarrow> if el \<noteq> [] then elements @ [(index m, el)] else elements)))"
  by pat_completeness auto
termination
proof (relation "measure (\<lambda>(regex, tagOf, html, lastIndex, elements). length html - lastIndex)", goal_cases)
  case 1
  show ?case by simp
next
  case (2 regex tagOf html lastIndex elements m element)
  from exec_endIndex[OF 2(1)] 2(3) show ?case by auto
qed

declare collect.simps [simp del]

text \<open>A finder: the pattern is built once, before the loop.\<close>

definition finder ::
  "string \<Rightarrow> (rmatch \<Rightarrow> string) \<Rightarrow> string \<Rightarrow> error + (nat \<times> string) list" where
  "finder source tagOf html =
     (case RegExp source of Inl e \<Rightarrow> Inl e | Inr regex \<Rightarrow> collect regex tagOf html 0 [])"

definition elements_of :: "error + (nat \<times> string) list \<Rightarrow> error + string list" where
  "elements_of res = (case res of Inl e \<Rightarrow> Inl e | Inr ps \<Rightarrow> Inr (map snd ps))"

text \<open>The default of the parameter \<open>tag\<close> of getByClass, a pattern; None is a call
  without the parameter.\<close>

definition defaultTag :: string where
  "defaultTag = ''[a-zA-Z][a-zA-Z0-9]*''"

definition tagSrc :: "string option \<Rightarrow> string" where
  "tagSrc tag = (case tag of None \<Rightarrow> defaultTag | Some t \<Rightarrow> t)"

text \<open>The two code units \<^verbatim>\<open>\b\<close> of a source.\<close>

definition wb :: string where
  "wb = [CHR 0x5C, CHR ''b'']"

text \<open>\<^verbatim>\<open><(${tag})([^>]*\bclass="[^"]*\b${className}\b[^"]*"[^>]*)>\<close>, flags gi.\<close>

definition classSrc :: "string \<Rightarrow> string \<Rightarrow> string" where
  "classSrc className tag =
     ''<('' @ tag @ '')([^>]*'' @ wb @ ''class=\"[^\"]*'' @ wb @ className @ wb @ ''[^\"]*\"[^>]*)>''"

definition getByClassAt :: "string \<Rightarrow> string \<Rightarrow> string option \<Rightarrow> error + (nat \<times> string) list" where
  "getByClassAt html className tag =
     finder (classSrc className (tagSrc tag)) (\<lambda>m. interp (grp m 1)) html"

definition getByClass :: "string \<Rightarrow> string \<Rightarrow> string option \<Rightarrow> error + string list" where
  "getByClass html className tag = elements_of (getByClassAt html className tag)"

text \<open>getByTag: a className that is given and not empty hands over to getByClass;
  otherwise the pattern is \<^verbatim>\<open><${tag}[^>]*>\<close>, flags gi.\<close>

definition getByTag :: "string \<Rightarrow> string \<Rightarrow> string option \<Rightarrow> error + string list" where
  "getByTag html tag className =
     (case className of
        Some c \<Rightarrow> if c \<noteq> [] then getByClass html c (Some tag)
                  else elements_of (finder (openSrc tag) (\<lambda>m. tag) html)
      | None \<Rightarrow> elements_of (finder (openSrc tag) (\<lambda>m. tag) html))"

text \<open>\<^verbatim>\<open><([a-zA-Z][a-zA-Z0-9]*)([^>]*\bid="${id}"[^>]*)>\<close>, flag i: one exec from the
  start of the document.\<close>

definition idSrc :: "string \<Rightarrow> string" where
  "idSrc ident = ''<([a-zA-Z][a-zA-Z0-9]*)([^>]*'' @ wb @ ''id=\"'' @ ident @ ''\"[^>]*)>''"

definition getElementById :: "string \<Rightarrow> string \<Rightarrow> error + string list" where
  "getElementById html ident =
     (case RegExp (idSrc ident) of
        Inl e \<Rightarrow> Inl e
      | Inr regex \<Rightarrow>
          (case exec True regex html 0 of
             None \<Rightarrow> Inr []
           | Some m \<Rightarrow>
               (case extractElement html (index m) (interp (grp m 1)) of
                  Inl e \<Rightarrow> Inl e
                | Inr element \<Rightarrow>
                    Inr (case element of None \<Rightarrow> [] | Some el \<Rightarrow> if el \<noteq> [] then [el] else []))))"

text \<open>\<^verbatim>\<open><([a-zA-Z][a-zA-Z0-9]*)[^>]*\bdata-${dataAttr}="[^"]*"[^>]*>\<close>, flags gi.\<close>

definition dataSrc :: "string \<Rightarrow> string" where
  "dataSrc dataAttr =
     ''<([a-zA-Z][a-zA-Z0-9]*)[^>]*'' @ wb @ ''data-'' @ dataAttr @ ''=\"[^\"]*\"[^>]*>''"

definition getByDataAttr :: "string \<Rightarrow> string \<Rightarrow> error + string list" where
  "getByDataAttr html dataAttr =
     elements_of (finder (dataSrc dataAttr) (\<lambda>m. interp (grp m 1)) html)"

section \<open>Attributes and text\<close>

text \<open>\<^verbatim>\<open>\b${attrName}="([^"]*)"\<close>, flag i.\<close>

definition attrSrc :: "string \<Rightarrow> string" where
  "attrSrc attrName = wb @ attrName @ ''=\"([^\"]*)\"''"

definition getAttr :: "string \<Rightarrow> string \<Rightarrow> error + string option" where
  "getAttr html attrName =
     (case match_i (attrSrc attrName) html of
        Inl e \<Rightarrow> Inl e
      | Inr None \<Rightarrow> Inr None
      | Inr (Some m) \<Rightarrow> Inr (grp m 1))"

text \<open>\<^verbatim>\<open>elements.map((el) => HtmlParser.getAttr(el, attrName))\<close>: the elements in
  order, and a throw ends the call.\<close>

fun getAttrs :: "string list \<Rightarrow> string \<Rightarrow> error + string option list" where
  "getAttrs [] attrName = Inr []"
| "getAttrs (el # elements) attrName =
     (case getAttr el attrName of
        Inl e \<Rightarrow> Inl e
      | Inr v \<Rightarrow> (case getAttrs elements attrName of Inl e \<Rightarrow> Inl e | Inr vs \<Rightarrow> Inr (v # vs)))"

text \<open>The patterns that the source writes as literals are given in the abstract
  syntax.\<close>

definition notGt :: rx where
  "notGt = Cls False [(CHR ''>'', CHR ''>'')]"

definition alnum :: rx where
  "alnum = Cls True [(CHR ''a'', CHR ''z''), (CHR ''A'', CHR ''Z''), (CHR ''0'', CHR ''9'')]"

text \<open>
  \<^verbatim>\<open>str.replace(regex, rep)\<close> for a regex with the flag g and a replacement without
  \<^verbatim>\<open>$\<close>: every match from the left, the text between the matches kept. After an
  empty match lastIndex moves one code unit on.
\<close>

function replace_g :: "bool \<Rightarrow> rx \<Rightarrow> string \<Rightarrow> string \<Rightarrow> nat \<Rightarrow> nat \<Rightarrow> string" where
  "replace_g ic r rep str lastIndex nextPos =
     (case exec ic r str lastIndex of
        None \<Rightarrow> drop nextPos str
      | Some m \<Rightarrow>
          (if nextPos \<le> index m then substring str nextPos (index m) @ rep else []) @
          replace_g ic r rep str
            (if whole m = [] then Suc (endIndex m) else endIndex m)
            (if nextPos \<le> index m then endIndex m else nextPos))"
  by pat_completeness auto
termination
proof (relation "measure (\<lambda>(ic, r, rep, str, lastIndex, nextPos). Suc (length str) - lastIndex)", goal_cases)
  case 1
  show ?case by simp
next
  case (2 ic r rep str lastIndex nextPos m)
  from exec_endIndex[OF 2] show ?case
    by (cases "whole m") (auto simp: endIndex_def)
qed

declare replace_g.simps [simp del]

text \<open>The white space and line terminators below 256, which \<^verbatim>\<open>trim\<close> removes.\<close>

definition is_space :: "char \<Rightarrow> bool" where
  "is_space c = List.member [CHR 0x09, CHR 0x0A, CHR 0x0B, CHR 0x0C, CHR 0x0D, CHR 0x20, CHR 0xA0] c"

definition trim :: "string \<Rightarrow> string" where
  "trim str = rev (dropWhile is_space (rev (dropWhile is_space str)))"

text \<open>\<^verbatim>\<open>/<[^>]*>/g\<close>\<close>

definition anyTagRx :: rx where
  "anyTagRx = seqs [Chr CHR ''<'', Star notGt, Chr CHR ''>'']"

definition getText :: "string \<Rightarrow> string" where
  "getText html = trim (replace_g False anyTagRx [] html 0 0)"

section \<open>Selectors\<close>

text \<open>\<^verbatim>\<open>/^([a-zA-Z0-9]*)?(#[a-zA-Z0-9_-]+)?(\.[a-zA-Z0-9_-]+)?$/\<close>\<close>

definition idch :: rx where
  "idch = Cls True [(CHR ''a'', CHR ''z''), (CHR ''A'', CHR ''Z''), (CHR ''0'', CHR ''9''),
                    (CHR ''_'', CHR ''_''), (CHR ''-'', CHR ''-'')]"

definition selectorRx :: rx where
  "selectorRx =
     seqs [Bol, Opt (Grp 1 (Star alnum)), Opt (Grp 2 (Seq (Chr CHR ''#'') (Plus idch))),
           Opt (Grp 3 (Seq (Chr CHR ''.'') (Plus idch))), Eol]"

definition querySelectorAll :: "string \<Rightarrow> string \<Rightarrow> error + string list" where
  "querySelectorAll html selector =
     (case smatch False selectorRx selector of
        None \<Rightarrow> Inr []
      | Some m \<Rightarrow>
          (let tag = grp m 1; idSelector = grp m 2; classSelector = grp m 3;
               ident = (if truthy idSelector then Some (drop 1 (interp idSelector)) else None);
               className = (if truthy classSelector then Some (drop 1 (interp classSelector)) else None)
           in if truthy ident then getElementById html (interp ident)
              else if truthy tag \<and> truthy className then getByClass html (interp className) tag
              else if truthy className then getByClass html (interp className) None
              else if truthy tag then getByTag html (interp tag) None
              else Inr []))"

definition querySelector :: "string \<Rightarrow> string \<Rightarrow> error + string option" where
  "querySelector html selector =
     (case querySelectorAll html selector of
        Inl e \<Rightarrow> Inl e
      | Inr elements \<Rightarrow> Inr (if 0 < length elements then Some (elements ! 0) else None))"

section \<open>Facts about the matcher and the program\<close>

text \<open>The sections up to the claims prove what the claims need: what a match
  consumes, that exec finds the leftmost match, which patterns the sources with
  plain names are, that extractElement and the finders return for plain names
  and every document, and what the finders return whatever the names are.\<close>

section \<open>What a match consumes\<close>

text \<open>The code unit before the position reached after consuming \<open>w\<close>.\<close>

definition lastp :: "char option \<Rightarrow> string \<Rightarrow> char option" where
  "lastp p w = (if w = [] then p else Some (last w))"

lemma lastp_append: "lastp (lastp p u) v = lastp p (u @ v)"
  by (simp add: lastp_def)

text \<open>The code units that some literal or class of the pattern accepts.\<close>

fun takes :: "bool \<Rightarrow> rx \<Rightarrow> char \<Rightarrow> bool" where
  "takes ic (Chr c) x = (canon ic x = canon ic c)"
| "takes ic (Cls pos rs) x = (cls_mem ic rs x = pos)"
| "takes ic (Seq a b) x = (takes ic a x \<or> takes ic b x)"
| "takes ic (Star r) x = takes ic r x"
| "takes ic (Plus r) x = takes ic r x"
| "takes ic (Opt r) x = takes ic r x"
| "takes ic (Grp n r) x = takes ic r x"
| "takes ic r x = False"

lemma ms_run:
  "t \<in> set (ms ic r s) \<Longrightarrow>
     \<exists>w. rest s = w @ rest t \<and> prev t = lastp (prev s) w \<and> (\<forall>x \<in> set w. takes ic r x)"
proof (induction ic r s arbitrary: t rule: ms.induct)
  case (1 ic s)
  then have "rest s = [] @ rest t \<and> prev t = lastp (prev s) []"
    by (simp add: ms.simps(1) lastp_def)
  then show ?case by fastforce
next
  case (2 ic c s)
  then obtain x xs where "rest s = x # xs" "canon ic x = canon ic c" "t = St (Some x) xs (caps s)"
    by (cases "rest s") (auto simp: ms.simps(2) split: if_splits)
  then have "rest s = [x] @ rest t \<and> prev t = lastp (prev s) [x] \<and> (\<forall>y \<in> set [x]. takes ic (Chr c) y)"
    by (simp add: lastp_def)
  then show ?case by blast
next
  case (3 ic pos rs s)
  then obtain x xs where "rest s = x # xs" "cls_mem ic rs x = pos" "t = St (Some x) xs (caps s)"
    by (cases "rest s") (auto simp: ms.simps(3) split: if_splits)
  then have "rest s = [x] @ rest t \<and> prev t = lastp (prev s) [x] \<and> (\<forall>y \<in> set [x]. takes ic (Cls pos rs) y)"
    by (simp add: lastp_def)
  then show ?case by blast
next
  case (4 ic a b s)
  then obtain u where u: "u \<in> set (ms ic a s)" and t: "t \<in> set (ms ic b u)"
    by (auto simp: ms.simps(4))
  from "4.IH"(1)[OF u] obtain w1 where w1: "rest s = w1 @ rest u" "prev u = lastp (prev s) w1"
    "\<forall>x \<in> set w1. takes ic a x" by blast
  from "4.IH"(2)[OF u t] obtain w2 where w2: "rest u = w2 @ rest t" "prev t = lastp (prev u) w2"
    "\<forall>x \<in> set w2. takes ic b x" by blast
  from w1 w2 have "rest s = (w1 @ w2) @ rest t \<and> prev t = lastp (prev s) (w1 @ w2)
      \<and> (\<forall>x \<in> set (w1 @ w2). takes ic (Seq a b) x)"
    by (auto simp: lastp_append)
  then show ?case by blast
next
  case (5 ic r s)
  show ?case
  proof (cases "t = s")
    case True
    then have "rest s = [] @ rest t \<and> prev t = lastp (prev s) []" by (simp add: lastp_def)
    then show ?thesis by fastforce
  next
    case False
    with "5.prems" obtain u where u: "u \<in> set (ms ic r (clear r s))"
      and lt: "length (rest u) < length (rest s)" and t: "t \<in> set (ms ic (Star r) u)"
      unfolding ms.simps(5)[of ic r s] by (auto split: if_splits)
    from "5.IH"(1)[OF u] obtain w1 where w1: "rest s = w1 @ rest u" "prev u = lastp (prev s) w1"
      "\<forall>x \<in> set w1. takes ic r x" by (auto simp: clear_def)
    from "5.IH"(2)[OF u lt t] obtain w2 where w2: "rest u = w2 @ rest t" "prev t = lastp (prev u) w2"
      "\<forall>x \<in> set w2. takes ic (Star r) x" by blast
    from w1 w2 have "rest s = (w1 @ w2) @ rest t \<and> prev t = lastp (prev s) (w1 @ w2)
        \<and> (\<forall>x \<in> set (w1 @ w2). takes ic (Star r) x)"
      by (auto simp: lastp_append)
    then show ?thesis by blast
  qed
next
  case (6 ic r s)
  then obtain u where u: "u \<in> set (ms ic r (clear r s))" and t: "t \<in> set (ms ic (Star r) u)"
    by (auto simp: ms.simps(6))
  from "6.IH"(1)[OF u] obtain w1 where w1: "rest s = w1 @ rest u" "prev u = lastp (prev s) w1"
    "\<forall>x \<in> set w1. takes ic r x" by (auto simp: clear_def)
  from "6.IH"(2)[OF u t] obtain w2 where w2: "rest u = w2 @ rest t" "prev t = lastp (prev u) w2"
    "\<forall>x \<in> set w2. takes ic (Star r) x" by blast
  from w1 w2 have "rest s = (w1 @ w2) @ rest t \<and> prev t = lastp (prev s) (w1 @ w2)
      \<and> (\<forall>x \<in> set (w1 @ w2). takes ic (Plus r) x)"
    by (auto simp: lastp_append)
  then show ?case by blast
next
  case (7 ic r s)
  show ?case
  proof (cases "t = s")
    case True
    then have "rest s = [] @ rest t \<and> prev t = lastp (prev s) []" by (simp add: lastp_def)
    then show ?thesis by fastforce
  next
    case False
    with "7.prems" have "t \<in> set (ms ic r (clear r s))" by (auto simp: ms.simps(7))
    from "7.IH"[OF this] show ?thesis by (auto simp: clear_def)
  qed
next
  case (8 ic n r s)
  then obtain u where u: "u \<in> set (ms ic r s)" and t: "t = capture n s u"
    by (auto simp: ms.simps(8))
  from "8.IH"[OF u] t show ?case by (auto simp: capture_def)
next
  case (9 ic s)
  then have "rest s = [] @ rest t \<and> prev t = lastp (prev s) []"
    by (auto simp: ms.simps(9) lastp_def split: if_splits)
  then show ?case by fastforce
next
  case (10 ic s)
  then have "rest s = [] @ rest t \<and> prev t = lastp (prev s) []"
    by (auto simp: ms.simps(10) lastp_def split: option.splits)
  then show ?case by fastforce
next
  case (11 ic s)
  then have "rest s = [] @ rest t \<and> prev t = lastp (prev s) []"
    by (auto simp: ms.simps(11) lastp_def split: list.splits)
  then show ?case by fastforce
qed

section \<open>Patterns that do not look behind\<close>

text \<open>Without \<^verbatim>\<open>\b\<close> and \<^verbatim>\<open>^\<close> the positions at which a match can end depend on
  the input ahead only.\<close>

fun ahead :: "rx \<Rightarrow> bool" where
  "ahead (Seq a b) = (ahead a \<and> ahead b)"
| "ahead (Star r) = ahead r"
| "ahead (Plus r) = ahead r"
| "ahead (Opt r) = ahead r"
| "ahead (Grp n r) = ahead r"
| "ahead WordB = False"
| "ahead Bol = False"
| "ahead r = True"

lemma concat_map_cong_on:
  assumes "map g xs = map g ys"
    and "\<And>x y. x \<in> set xs \<Longrightarrow> g x = g y \<Longrightarrow> map g (f x) = map g (f' y)"
  shows "map g (concat (map f xs)) = map g (concat (map f' ys))"
  using assms
proof (induction xs arbitrary: ys)
  case Nil
  then show ?case by simp
next
  case (Cons x xs)
  then obtain y ys' where ys: "ys = y # ys'" "g x = g y" "map g xs = map g ys'"
    by (cases ys) auto
  from Cons.prems(2)[of x y] ys have "map g (f x) = map g (f' y)" by simp
  moreover from Cons.IH[OF ys(3)] Cons.prems(2)
  have "map g (concat (map f xs)) = map g (concat (map f' ys'))" by simp
  ultimately show ?case using ys by simp
qed

lemma filter_cong_on:
  assumes "map g xs = map g ys"
  shows "map g (filter (\<lambda>x. P (g x)) xs) = map g (filter (\<lambda>x. P (g x)) ys)"
proof -
  have "map g (filter (P \<circ> g) xs) = filter P (map g xs)" by (simp add: filter_map)
  moreover have "map g (filter (P \<circ> g) ys) = filter P (map g ys)" by (simp add: filter_map)
  ultimately show ?thesis using assms by (simp add: comp_def)
qed

lemma rest_clear: "rest (clear r s) = rest s"
  by (simp add: clear_def)

lemma ms_ahead:
  "ahead r \<Longrightarrow> rest s = rest s' \<Longrightarrow> map rest (ms ic r s) = map rest (ms ic r s')"
proof (induction ic r s arbitrary: s' rule: ms.induct)
  case (4 ic a b s)
  from "4.prems" have a: "map rest (ms ic a s) = map rest (ms ic a s')"
    by (intro "4.IH"(1)) simp_all
  have "map rest (concat (map (ms ic b) (ms ic a s))) = map rest (concat (map (ms ic b) (ms ic a s')))"
  proof (rule concat_map_cong_on[OF a])
    fix x y assume "x \<in> set (ms ic a s)" "rest x = rest y"
    with "4.IH"(2) "4.prems"(1) show "map rest (ms ic b x) = map rest (ms ic b y)" by simp
  qed
  then show ?case by (simp add: ms.simps(4))
next
  case (5 ic r s)
  from "5.prems" have a: "map rest (ms ic r (clear r s)) = map rest (ms ic r (clear r s'))"
    by (intro "5.IH"(1)) (simp_all add: rest_clear)
  have "map rest (concat (map (\<lambda>t. if length (rest t) < length (rest s) then ms ic (Star r) t else [])
                 (ms ic r (clear r s))))
      = map rest (concat (map (\<lambda>t. if length (rest t) < length (rest s') then ms ic (Star r) t else [])
                 (ms ic r (clear r s'))))"
  proof (rule concat_map_cong_on[OF a])
    fix x y assume xy: "x \<in> set (ms ic r (clear r s))" "rest x = rest y"
    show "map rest (if length (rest x) < length (rest s) then ms ic (Star r) x else [])
        = map rest (if length (rest y) < length (rest s') then ms ic (Star r) y else [])"
    proof (cases "length (rest x) < length (rest s)")
      case True
      from "5.IH"(2)[OF xy(1) True _ xy(2)] "5.prems" True xy(2) show ?thesis by simp
    next
      case False
      with xy(2) "5.prems" show ?thesis by simp
    qed
  qed
  with "5.prems" show ?case by (simp add: ms.simps(5)[of ic r s] ms.simps(5)[of ic r s'])
next
  case (6 ic r s)
  from "6.prems" have a: "map rest (ms ic r (clear r s)) = map rest (ms ic r (clear r s'))"
    by (intro "6.IH"(1)) (simp_all add: rest_clear)
  have "map rest (concat (map (ms ic (Star r)) (ms ic r (clear r s))))
      = map rest (concat (map (ms ic (Star r)) (ms ic r (clear r s'))))"
  proof (rule concat_map_cong_on[OF a])
    fix x y assume "x \<in> set (ms ic r (clear r s))" "rest x = rest y"
    with "6.IH"(2) "6.prems"(1) show "map rest (ms ic (Star r) x) = map rest (ms ic (Star r) y)"
      by simp
  qed
  then show ?case by (simp add: ms.simps(6))
next
  case (7 ic r s)
  from "7.prems" have a: "map rest (ms ic r (clear r s)) = map rest (ms ic r (clear r s'))"
    by (intro "7.IH"(1)) (simp_all add: rest_clear)
  from filter_cong_on[OF a, of "\<lambda>v. length v < length (rest s)"] "7.prems"
  show ?case by (simp add: ms.simps(7))
next
  case (8 ic n r s)
  from "8.prems" have "map rest (ms ic r s) = map rest (ms ic r s')"
    by (intro "8.IH") simp_all
  moreover have "\<And>u v. rest (capture n u v) = rest v" by (simp add: capture_def)
  ultimately show ?case by (simp add: ms.simps(8) comp_def)
qed (auto simp: ms.simps split: list.splits)

section \<open>exec finds the leftmost match\<close>

text \<open>The state in which a match attempt at index \<open>k\<close> of \<open>str\<close> starts.\<close>

definition at_index :: "rx \<Rightarrow> string \<Rightarrow> nat \<Rightarrow> st" where
  "at_index r str k = start r (lastp None (take k str)) (drop k str)"

lemma lastp_Cons: "lastp (Some x) w = lastp p (x # w)"
  by (simp add: lastp_def)

lemma scan_Some_first:
  "scan ic r p xs i = Some (j, t) \<Longrightarrow>
     \<exists>k ts. k \<le> length xs \<and> j = i + k
       \<and> ms ic r (start r (lastp p (take k xs)) (drop k xs)) = t # ts
       \<and> (\<forall>k' < k. ms ic r (start r (lastp p (take k' xs)) (drop k' xs)) = [])"
proof (induction xs arbitrary: p i)
  case Nil
  then obtain ts where "ms ic r (start r p []) = t # ts" "j = i"
    by (auto split: list.splits)
  then have "0 \<le> length ([]::string) \<and> j = i + 0
      \<and> ms ic r (start r (lastp p (take 0 [])) (drop 0 [])) = t # ts
      \<and> (\<forall>k' < 0. ms ic r (start r (lastp p (take k' [])) (drop k' [])) = [])"
    by (simp add: lastp_def)
  then show ?case by blast
next
  case (Cons x xs)
  show ?case
  proof (cases "ms ic r (start r p (x # xs))")
    case Nil
    with Cons.prems have "scan ic r (Some x) xs (Suc i) = Some (j, t)" by simp
    from Cons.IH[OF this] obtain k ts where k: "k \<le> length xs" "j = Suc i + k"
      "ms ic r (start r (lastp (Some x) (take k xs)) (drop k xs)) = t # ts"
      "\<forall>k' < k. ms ic r (start r (lastp (Some x) (take k' xs)) (drop k' xs)) = []" by blast
    have "\<forall>k' < Suc k. ms ic r (start r (lastp p (take k' (x # xs))) (drop k' (x # xs))) = []"
    proof (intro allI impI)
      fix k' assume "k' < Suc k"
      show "ms ic r (start r (lastp p (take k' (x # xs))) (drop k' (x # xs))) = []"
      proof (cases k')
        case 0
        with Nil show ?thesis by (simp add: lastp_def)
      next
        case (Suc n)
        with \<open>k' < Suc k\<close> k(4) show ?thesis by (simp add: lastp_Cons[of x _ p])
      qed
    qed
    with k have "Suc k \<le> length (x # xs) \<and> j = i + Suc k
        \<and> ms ic r (start r (lastp p (take (Suc k) (x # xs))) (drop (Suc k) (x # xs))) = t # ts
        \<and> (\<forall>k' < Suc k. ms ic r (start r (lastp p (take k' (x # xs))) (drop k' (x # xs))) = [])"
      by (simp add: lastp_Cons[of x _ p])
    then show ?thesis by blast
  next
    case (Cons u us)
    with Cons.prems have "j = i" "t = u" by auto
    with Cons have "0 \<le> length (x # xs) \<and> j = i + 0
        \<and> ms ic r (start r (lastp p (take 0 (x # xs))) (drop 0 (x # xs))) = t # us
        \<and> (\<forall>k' < 0. ms ic r (start r (lastp p (take k' (x # xs))) (drop k' (x # xs))) = [])"
      by (simp add: lastp_def)
    then show ?thesis by blast
  qed
qed

lemma scan_None_all:
  "scan ic r p xs i = None \<Longrightarrow> k \<le> length xs \<Longrightarrow>
     ms ic r (start r (lastp p (take k xs)) (drop k xs)) = []"
proof (induction xs arbitrary: p i k)
  case Nil
  then show ?case by (auto simp: lastp_def split: list.splits)
next
  case (Cons x xs)
  from Cons.prems(1) have here: "ms ic r (start r p (x # xs)) = []"
    and later: "scan ic r (Some x) xs (Suc i) = None"
    by (auto split: list.splits)
  show ?case
  proof (cases k)
    case 0
    with here show ?thesis by (simp add: lastp_def)
  next
    case (Suc n)
    with Cons.prems(2) have "n \<le> length xs" by simp
    from Cons.IH[OF later this] Suc show ?thesis by (simp add: lastp_Cons[of x _ p])
  qed
qed

lemma char_before_lastp:
  "li \<le> length str \<Longrightarrow> char_before str li = lastp None (take li str)"
  by (cases li) (auto simp: char_before_def lastp_def last_conv_nth min_def)

lemma at_index_shift:
  "li \<le> length str \<Longrightarrow>
     start r (lastp (char_before str li) (take k (drop li str))) (drop k (drop li str))
       = at_index r str (li + k)"
proof -
  assume li: "li \<le> length str"
  have "take (li + k) str = take li str @ take k (drop li str)" by (simp add: take_add)
  moreover have "drop k (drop li str) = drop (li + k) str" by (simp add: add.commute)
  ultimately show ?thesis
    by (simp only: at_index_def char_before_lastp[OF li] lastp_append)
qed

lemma exec_leftmost:
  assumes "exec ic r str li = Some m"
  shows "\<exists>t ts. li \<le> index m \<and> index m \<le> length str
           \<and> ms ic r (at_index r str (index m)) = t # ts
           \<and> drop (index m) str = whole m @ rest t \<and> groups m = caps t
           \<and> (\<forall>k. li \<le> k \<and> k < index m \<longrightarrow> ms ic r (at_index r str k) = [])"
proof -
  from assms have li: "li \<le> length str"
    by (auto simp: exec_def split: if_splits)
  from assms obtain j t where sc: "scan ic r (char_before str li) (drop li str) li = Some (j, t)"
    and m: "m = RMatch j (take (length str - length (rest t) - j) (drop j str)) (caps t)"
    by (auto simp: exec_def split: if_splits option.splits)
  from scan_Some_first[OF sc] obtain k ts where k: "k \<le> length (drop li str)" "j = li + k"
    and t: "ms ic r (start r (lastp (char_before str li) (take k (drop li str))) (drop k (drop li str))) = t # ts"
    and none: "\<forall>k' < k. ms ic r (start r (lastp (char_before str li) (take k' (drop li str))) (drop k' (drop li str))) = []"
    by blast
  from k li have j: "li \<le> j" "j \<le> length str" by auto
  from t have "ms ic r (at_index r str (li + k)) = t # ts" by (simp only: at_index_shift[OF li])
  with k have t': "ms ic r (at_index r str j) = t # ts" by simp
  then have "t \<in> set (ms ic r (at_index r str j))" by simp
  from ms_suffix[OF this] obtain w where w: "drop j str = w @ rest t"
    by (auto simp: at_index_def start_def)
  then have "length str - j = length w + length (rest t)"
    by (metis length_append length_drop)
  then have "length str - length (rest t) - j = length w" by simp
  with w m have wm: "whole m = w" by simp
  have "\<forall>k'. li \<le> k' \<and> k' < j \<longrightarrow> ms ic r (at_index r str k') = []"
  proof (intro allI impI)
    fix k' assume a: "li \<le> k' \<and> k' < j"
    with k have "k' - li < k" by auto
    with none have "ms ic r (start r (lastp (char_before str li) (take (k' - li) (drop li str))) (drop (k' - li) (drop li str))) = []"
      by blast
    then have "ms ic r (at_index r str (li + (k' - li))) = []" by (simp only: at_index_shift[OF li])
    with a show "ms ic r (at_index r str k') = []" by simp
  qed
  with j t' w wm m show ?thesis by auto
qed

lemma exec_None_all:
  assumes "exec ic r str li = None" "li \<le> k" "k \<le> length str"
  shows "ms ic r (at_index r str k) = []"
proof -
  from assms have li: "li \<le> length str" by simp
  with assms(1) have "scan ic r (char_before str li) (drop li str) li = None"
    by (auto simp: exec_def split: if_splits option.splits)
  from scan_None_all[OF this, of "k - li"] assms
  have "ms ic r (start r (lastp (char_before str li) (take (k - li) (drop li str))) (drop (k - li) (drop li str))) = []"
    by simp
  then have "ms ic r (at_index r str (li + (k - li))) = []" by (simp only: at_index_shift[OF li])
  with assms show ?thesis by simp
qed

lemma exec_finds:
  assumes "ms ic r (at_index r str k) \<noteq> []" "li \<le> k" "k \<le> length str"
  shows "\<exists>m. exec ic r str li = Some m \<and> index m \<le> k"
proof (cases "exec ic r str li")
  case None
  from exec_None_all[OF None assms(2,3)] assms(1) show ?thesis by simp
next
  case (Some m)
  from exec_leftmost[OF Some] assms have "\<not> index m > k"
    by metis
  with Some show ?thesis by simp
qed

section \<open>Plain names\<close>

text \<open>
  A plain name has letters, digits, \<^verbatim>\<open>_\<close> and \<^verbatim>\<open>-\<close> only. Spliced into a source
  it is read as its own code units, so that the patterns of the program with
  plain names are the following.
\<close>

definition alnum_rs :: "(char \<times> char) list" where
  "alnum_rs = [(CHR ''a'', CHR ''z''), (CHR ''A'', CHR ''Z''), (CHR ''0'', CHR ''9'')]"

definition name_rs :: "(char \<times> char) list" where
  "name_rs = [(CHR ''a'', CHR ''z''), (CHR ''A'', CHR ''Z''), (CHR ''0'', CHR ''9''),
              (CHR ''_'', CHR ''_''), (CHR ''-'', CHR ''-'')]"

definition plain :: "string \<Rightarrow> bool" where
  "plain w = list_all (in_ranges name_rs) w"

definition notQuote :: rx where
  "notQuote = Cls False [(CHR 0x22, CHR 0x22)]"

definition openRx :: "string \<Rightarrow> rx" where
  "openRx tagName = seqs (Chr CHR ''<'' # map Chr tagName @ [Star notGt, Chr CHR ''>''])"

definition closeRx :: "string \<Rightarrow> rx" where
  "closeRx tagName = seqs (Chr CHR ''<'' # Chr CHR ''/'' # map Chr tagName @ [Chr CHR ''>''])"

definition anyTag :: rx where
  "anyTag = seqs [Cls True [(CHR ''a'', CHR ''z''), (CHR ''A'', CHR ''Z'')], Star alnum]"

definition tagRx :: "string option \<Rightarrow> rx" where
  "tagRx tag = (case tag of None \<Rightarrow> anyTag | Some t \<Rightarrow> seqs (map Chr t))"

definition classRx :: "string \<Rightarrow> string option \<Rightarrow> rx" where
  "classRx className tag =
     seqs [Chr CHR ''<'', Grp 1 (tagRx tag),
           Grp 2 (seqs ([Star notGt, WordB] @ map Chr ''class=\"'' @ [Star notQuote, WordB]
                        @ map Chr className @ [WordB, Star notQuote, Chr CHR 0x22, Star notGt])),
           Chr CHR ''>'']"

definition attrRx :: "string \<Rightarrow> rx" where
  "attrRx attrName =
     seqs (WordB # map Chr attrName @ [Chr CHR ''='', Chr CHR 0x22, Grp 1 (seqs [Star notQuote]),
                                        Chr CHR 0x22])"

lemma plain_not_syntax:
  assumes "in_ranges name_rs c"
  shows "c \<noteq> CHR ''(''" "c \<noteq> CHR '')''" "c \<noteq> CHR ''*''" "c \<noteq> CHR ''+''" "c \<noteq> CHR ''?''"
    "c \<noteq> CHR ''[''" "c \<noteq> CHR 0x5C" "c \<noteq> CHR ''^''" "c \<noteq> CHR ''$''" "c \<noteq> CHR ''.''"
    "c \<noteq> CHR ''|''" "c \<noteq> CHR ''{''"
  using assms by (auto simp: in_ranges_def name_rs_def)

lemma pa_plain:
  "plain w \<Longrightarrow> pa stack cur n (w @ src) = pa stack (rev (map Chr w) @ cur) n src"
proof (induction w arbitrary: cur)
  case Nil
  show ?case by simp
next
  case (Cons c w)
  then have c: "in_ranges name_rs c" and w: "plain w" by (simp_all add: plain_def)
  from plain_not_syntax[OF c]
  have "pa stack cur n ((c # w) @ src) = pa stack (Chr c # cur) n (w @ src)"
    by (simp add: pa.simps(2))
  with Cons.IH[OF w, of "Chr c # cur"] show ?case by simp
qed

lemma RegExp_open: "plain n \<Longrightarrow> RegExp (openSrc n) = Inr (openRx n)"
  by (simp add: RegExp_def openSrc_def openRx_def pa.simps pa_plain cls_items.simps notGt_def
      quantifiable_def quant_def)

lemma RegExp_open_start: "plain n \<Longrightarrow> RegExp (''^'' @ openSrc n) = Inr (Seq Bol (openRx n))"
  by (simp add: RegExp_def openSrc_def openRx_def pa.simps pa_plain cls_items.simps notGt_def
      quantifiable_def quant_def)

lemma RegExp_close: "plain n \<Longrightarrow> RegExp (closeSrc n) = Inr (closeRx n)"
  by (simp add: RegExp_def closeSrc_def closeRx_def pa.simps pa_plain)

lemma RegExp_close_start: "plain n \<Longrightarrow> RegExp (''^'' @ closeSrc n) = Inr (Seq Bol (closeRx n))"
  by (simp add: RegExp_def closeSrc_def closeRx_def pa.simps pa_plain)

lemma RegExp_defaultTag_class:
  "plain c \<Longrightarrow> RegExp (classSrc c defaultTag) = Inr (classRx c None)"
  by (simp add: RegExp_def classSrc_def classRx_def defaultTag_def tagRx_def anyTag_def wb_def
      pa.simps pa_plain cls_items.simps notGt_def notQuote_def alnum_def quantifiable_def quant_def)

lemma pa_group_plain:
  assumes "plain t"
  shows "pa stack cur n (CHR ''('' # t @ CHR '')'' # src)
           = pa stack (Grp n (seqs (map Chr t)) # cur) (Suc n) src"
proof (cases t)
  case Nil
  then show ?thesis by (simp add: pa.simps)
next
  case (Cons x t')
  with assms have "in_ranges name_rs x" by (simp add: plain_def)
  from plain_not_syntax(5)[OF this] Cons
  have "pa stack cur n (CHR ''('' # t @ CHR '')'' # src)
      = pa ((n, cur) # stack) [] (Suc n) (t @ CHR '')'' # src)"
    by (simp add: pa.simps(2)[of stack cur n "CHR ''(''"])
  also have "\<dots> = pa ((n, cur) # stack) (rev (map Chr t) @ []) (Suc n) (CHR '')'' # src)"
    by (rule pa_plain[OF assms])
  also have "\<dots> = pa stack (Grp n (seqs (map Chr t)) # cur) (Suc n) src"
    by (simp add: pa.simps(2)[of _ _ _ "CHR '')''"])
  finally show ?thesis .
qed

lemma RegExp_tag_class:
  "plain c \<Longrightarrow> plain t \<Longrightarrow> RegExp (classSrc c t) = Inr (classRx c (Some t))"
  by (simp add: RegExp_def classSrc_def classRx_def tagRx_def wb_def
      pa.simps(2)[of _ _ _ "CHR ''<''"] pa_group_plain)
     (simp add: pa.simps pa_plain cls_items.simps notGt_def notQuote_def quantifiable_def quant_def)

lemma RegExp_attr: "plain n \<Longrightarrow> RegExp (attrSrc n) = Inr (attrRx n)"
  by (simp add: RegExp_def attrSrc_def attrRx_def wb_def
      pa.simps pa_plain cls_items.simps notQuote_def quantifiable_def quant_def)

section \<open>extractElement always returns\<close>

lemma ms_Seq_Bol:
  "ms ic (Seq Bol r) s = (case prev s of None \<Rightarrow> ms ic r s | Some c \<Rightarrow> [])"
  by (simp add: ms.simps(4,10) split: option.splits)

lemma start_Seq_Bol: "start (Seq Bol r) p xs = start r p xs"
  by (simp add: start_def)

lemma prev_start: "prev (start r p xs) = p"
  by (simp add: start_def)

lemma rest_start: "rest (start r p xs) = xs"
  by (simp add: start_def)

lemma smatch_Bol:
  assumes "smatch ic (Seq Bol r) str = Some m"
  shows "\<exists>t ts. index m = 0 \<and> ms ic r (start r None str) = t # ts
           \<and> str = whole m @ rest t \<and> groups m = caps t"
proof -
  from exec_leftmost[OF assms[unfolded smatch_def]] obtain t ts
    where j: "index m \<le> length str"
      and t: "ms ic (Seq Bol r) (at_index (Seq Bol r) str (index m)) = t # ts"
      and w: "drop (index m) str = whole m @ rest t" and g: "groups m = caps t" by blast
  from t have p: "lastp None (take (index m) str) = None"
    by (auto simp: ms_Seq_Bol at_index_def start_def split: option.splits)
  with j have "index m = 0" by (cases "index m"; cases str) (auto simp: lastp_def)
  with t have "ms ic r (start r None str) = t # ts"
    by (simp add: ms_Seq_Bol at_index_def start_Seq_Bol lastp_def prev_start)
  with \<open>index m = 0\<close> w g show ?thesis by simp
qed

lemma smatch_Bol_finds:
  assumes "ms ic r (start r None str) \<noteq> []"
  shows "\<exists>m. smatch ic (Seq Bol r) str = Some m"
proof -
  from assms have "ms ic (Seq Bol r) (at_index (Seq Bol r) str 0) \<noteq> []"
    by (simp add: ms_Seq_Bol at_index_def start_def lastp_def)
  from exec_finds[OF this, of 0] show ?thesis by (auto simp: smatch_def)
qed

lemma search_Some:
  assumes "search ic r str = Some k"
  shows "k \<le> length str \<and> ms ic r (at_index r str k) \<noteq> []"
proof -
  from assms obtain m where m: "exec ic r str 0 = Some m" "index m = k"
    by (auto simp: search_def)
  from exec_leftmost[OF m(1)] m(2) show ?thesis by auto
qed

lemma ahead_any_start:
  assumes "ahead r" "ms ic r (start r p xs) \<noteq> []"
  shows "ms ic r (start r q xs) \<noteq> []"
proof -
  from ms_ahead[OF assms(1), of "start r p xs" "start r q xs" ic]
  have "map rest (ms ic r (start r p xs)) = map rest (ms ic r (start r q xs))"
    by (simp add: start_def)
  with assms(2) show ?thesis by (metis map_is_Nil_conv)
qed

lemma search_then_match:
  assumes "ahead r" "search ic r str = Some k"
  shows "\<exists>m. smatch ic (Seq Bol r) (drop k str) = Some m"
proof -
  from search_Some[OF assms(2)] have "ms ic r (at_index r str k) \<noteq> []" by simp
  then have "ms ic r (start r None (drop k str)) \<noteq> []"
    unfolding at_index_def by (rule ahead_any_start[OF assms(1)])
  then show ?thesis by (rule smatch_Bol_finds)
qed

lemma ahead_seqs: "ahead (seqs rs) = list_all ahead rs"
  by (induction rs) simp_all

lemma ahead_openRx: "ahead (openRx n)"
  by (simp add: openRx_def notGt_def ahead_seqs list_all_iff)

lemma ahead_closeRx: "ahead (closeRx n)"
  by (simp add: closeRx_def ahead_seqs list_all_iff)

text \<open>A match of a pattern that ends with a literal ends with that literal.\<close>

lemma ms_seqs_last:
  "t \<in> set (ms ic (seqs (rs @ [Chr c])) s) \<Longrightarrow> \<exists>x. prev t = Some x \<and> canon ic x = canon ic c"
proof (induction rs arbitrary: s)
  case Nil
  then obtain u where "u \<in> set (ms ic (Chr c) s)" "t \<in> set (ms ic Eps u)"
    by (auto simp: ms.simps(4))
  then show ?case by (cases "rest s") (auto simp: ms.simps(1,2) split: if_splits)
next
  case (Cons r rs)
  then obtain u where "t \<in> set (ms ic (seqs (rs @ [Chr c])) u)"
    by (auto simp: ms.simps(4))
  from Cons.IH[OF this] show ?case .
qed

lemma canon_gt: "canon ic x = canon ic CHR ''>'' \<Longrightarrow> x = CHR ''>''"
  by (cases x) (auto simp: canon_def is_lower_def split: if_splits)

definition after_gt :: "string \<Rightarrow> nat \<Rightarrow> bool" where
  "after_gt html pos = (0 < pos \<and> pos \<le> length html \<and> html ! (pos - 1) = CHR ''>'')"

lemma tag_match:
  assumes "smatch True (Seq Bol r) str = Some m"
    and "r = openRx n \<or> r = closeRx n"
  shows "index m = 0 \<and> whole m \<noteq> [] \<and> last (whole m) = CHR ''>'' \<and> (\<exists>ys. str = whole m @ ys)"
proof -
  from smatch_Bol[OF assms(1)] obtain t ts where i: "index m = 0"
    and t: "ms True r (start r None str) = t # ts" and w: "str = whole m @ rest t" by blast
  then have tin: "t \<in> set (ms True r (start r None str))" by simp
  from assms(2) obtain c r' where "r = Seq (Chr c) r'"
    by (auto simp: openRx_def closeRx_def)
  with tin have "length (rest t) < length (rest (start r None str))"
    using ms_Chr_first by blast
  with w have ne: "whole m \<noteq> []" by (auto simp: start_def)
  from assms(2) obtain rs where "r = seqs (rs @ [Chr CHR ''>''])"
  proof
    assume "r = openRx n"
    then have "r = seqs ((Chr CHR ''<'' # map Chr n @ [Star notGt]) @ [Chr CHR ''>''])"
      by (simp add: openRx_def)
    then show ?thesis using that by blast
  next
    assume "r = closeRx n"
    then have "r = seqs ((Chr CHR ''<'' # Chr CHR ''/'' # map Chr n) @ [Chr CHR ''>''])"
      by (simp add: closeRx_def)
    then show ?thesis using that by blast
  qed
  with tin ms_seqs_last canon_gt have p: "prev t = Some CHR ''>''" by blast
  from ms_run[OF tin] obtain w' where w': "rest (start r None str) = w' @ rest t"
    "prev t = lastp (prev (start r None str)) w'" by blast
  with w have "w' = whole m" by (simp add: start_def)
  with w' p ne have "last (whole m) = CHR ''>''" by (simp add: lastp_def)
  with i ne w show ?thesis by blast
qed

lemma tag_match_after_gt:
  assumes "smatch True (Seq Bol r) (drop i html) = Some m"
    and "r = openRx n \<or> r = closeRx n"
  shows "after_gt html (i + length (whole m)) \<and> drop i html = whole m @ drop (i + length (whole m)) html"
proof -
  from tag_match[OF assms] obtain ys where ne: "whole m \<noteq> []" and l: "last (whole m) = CHR ''>''"
    and d: "drop i html = whole m @ ys" by blast
  from d have len: "length html - i = length (whole m) + length ys"
    by (metis length_append length_drop)
  with ne have le: "i + length (whole m) \<le> length html" by (cases "whole m") auto
  from ne have pos: "0 < length (whole m)" by simp
  have "html ! (i + (length (whole m) - 1)) = drop i html ! (length (whole m) - 1)"
    using le by simp
  also have "\<dots> = whole m ! (length (whole m) - 1)"
    using d pos by (simp add: nth_append)
  also have "\<dots> = CHR ''>''" using l ne by (simp add: last_conv_nth)
  finally have "html ! (i + length (whole m) - 1) = CHR ''>''" using pos by simp
  moreover from d have "drop (i + length (whole m)) html = ys"
    by (metis append_eq_conv_conj drop_drop add.commute)
  ultimately show ?thesis using le pos d by (simp add: after_gt_def)
qed

text \<open>With a plain tag name the patterns of extractElement are \<open>openRx\<close> and
  \<open>closeRx\<close>.\<close>

lemma search_i_open: "plain n \<Longrightarrow> search_i (openSrc n) str = Inr (search True (openRx n) str)"
  by (simp add: search_i_def RegExp_open)

lemma search_i_close: "plain n \<Longrightarrow> search_i (closeSrc n) str = Inr (search True (closeRx n) str)"
  by (simp add: search_i_def RegExp_close)

lemma match_i_open:
  "plain n \<Longrightarrow> match_i (''^'' @ openSrc n) str = Inr (smatch True (Seq Bol (openRx n)) str)"
  using RegExp_open_start[of n] by (simp add: match_i_def)

lemma match_i_close:
  "plain n \<Longrightarrow> match_i (''^'' @ closeSrc n) str = Inr (smatch True (Seq Bol (closeRx n)) str)"
  using RegExp_close_start[of n] by (simp add: match_i_def)

lemma extractLoop_stop:
  "\<not> (0 < depth \<and> pos < length html) \<Longrightarrow> extractLoop html tagName depth pos = Inr pos"
  by (subst extractLoop.simps) auto

lemma extractLoop_no_close:
  "plain tagName \<Longrightarrow> 0 < depth \<Longrightarrow> pos < length html
     \<Longrightarrow> search True (closeRx tagName) (drop pos html) = None
     \<Longrightarrow> extractLoop html tagName depth pos = Inr pos"
  by (subst extractLoop.simps) (simp add: search_i_open search_i_close)

lemma extractLoop_close:
  "plain tagName \<Longrightarrow> 0 < depth \<Longrightarrow> pos < length html
     \<Longrightarrow> search True (closeRx tagName) (drop pos html) = Some c
     \<Longrightarrow> (case search True (openRx tagName) (drop pos html) of None \<Rightarrow> None
            | Some opn \<Rightarrow> if opn < c then Some opn else None) = None
     \<Longrightarrow> smatch True (Seq Bol (closeRx tagName)) (drop (pos + c) html) = Some m
     \<Longrightarrow> extractLoop html tagName depth pos
           = extractLoop html tagName (depth - 1) (pos + (c + length (whole m)))"
  by (subst extractLoop.simps) (simp add: search_i_open search_i_close match_i_close[simplified])

lemma extractLoop_open:
  "plain tagName \<Longrightarrow> 0 < depth \<Longrightarrow> pos < length html
     \<Longrightarrow> search True (closeRx tagName) (drop pos html) = Some c
     \<Longrightarrow> (case search True (openRx tagName) (drop pos html) of None \<Rightarrow> None
            | Some opn \<Rightarrow> if opn < c then Some opn else None) = Some opn
     \<Longrightarrow> smatch True (Seq Bol (openRx tagName)) (drop (pos + opn) html) = Some m
     \<Longrightarrow> whole m \<noteq> []
     \<Longrightarrow> extractLoop html tagName depth pos
           = extractLoop html tagName (depth + 1) (pos + (opn + length (whole m)))"
  by (subst extractLoop.simps) (simp add: search_i_open search_i_close match_i_open[simplified])

lemma extractLoop_returns:
  "plain tagName \<Longrightarrow> after_gt html pos \<Longrightarrow>
     \<exists>pos'. extractLoop html tagName depth pos = Inr pos' \<and> pos \<le> pos' \<and> after_gt html pos'"
proof (induction html tagName depth pos rule: extractLoop.induct)
  case (1 html tagName depth pos)
  note pl = "1.prems"(1)
  show ?case
  proof (cases "0 < depth \<and> pos < length html")
    case False
    with "1.prems" show ?thesis by (simp add: extractLoop_stop)
  next
    case go: True
    show ?thesis
    proof (cases "search True (closeRx tagName) (drop pos html)")
      case None
      with go "1.prems" show ?thesis by (simp add: extractLoop_no_close)
    next
      case (Some c)
      show ?thesis
      proof (cases "case search True (openRx tagName) (drop pos html) of None \<Rightarrow> None
                      | Some opn \<Rightarrow> if opn < c then Some opn else None")
        case None
        from search_then_match[OF ahead_closeRx Some] obtain m
          where m: "smatch True (Seq Bol (closeRx tagName)) (drop (pos + c) html) = Some m"
          by (auto simp: add.commute)
        from tag_match_after_gt[OF m, of tagName]
        have ag: "after_gt html (pos + (c + length (whole m)))"
          by (simp add: add.assoc)
        have "\<exists>pos'. extractLoop html tagName (depth - 1) (pos + (c + length (whole m))) = Inr pos'
            \<and> pos + (c + length (whole m)) \<le> pos' \<and> after_gt html pos'"
          by (rule "1.IH"(1)[OF go search_i_open[OF pl] search_i_close[OF pl] Some None
                match_i_close[OF pl] m pl ag])
        then obtain pos'
          where "extractLoop html tagName (depth - 1) (pos + (c + length (whole m))) = Inr pos'"
            "pos + (c + length (whole m)) \<le> pos'" "after_gt html pos'" by blast
        with go extractLoop_close[OF pl _ _ Some None m] show ?thesis by auto
      next
        case opn: (Some opn)
        then have so: "search True (openRx tagName) (drop pos html) = Some opn"
          by (auto split: option.splits if_splits)
        from search_then_match[OF ahead_openRx so] obtain m
          where m: "smatch True (Seq Bol (openRx tagName)) (drop (pos + opn) html) = Some m"
          by (auto simp: add.commute)
        from tag_match[OF m, of tagName] have ne: "whole m \<noteq> []" by simp
        then have adv: "opn + length (whole m) \<noteq> 0" by simp
        from tag_match_after_gt[OF m, of tagName]
        have ag: "after_gt html (pos + (opn + length (whole m)))"
          by (simp add: add.assoc)
        have "\<exists>pos'. extractLoop html tagName (depth + 1) (pos + (opn + length (whole m))) = Inr pos'
            \<and> pos + (opn + length (whole m)) \<le> pos' \<and> after_gt html pos'"
          by (rule "1.IH"(2)[OF go search_i_open[OF pl] search_i_close[OF pl] Some opn
                match_i_open[OF pl] m adv pl ag])
        then obtain pos'
          where "extractLoop html tagName (depth + 1) (pos + (opn + length (whole m))) = Inr pos'"
            "pos + (opn + length (whole m)) \<le> pos'" "after_gt html pos'" by blast
        with go extractLoop_open[OF pl _ _ Some opn m ne] show ?thesis by auto
      qed
    qed
  qed
qed

text \<open>What extractElement returns: null, or a span of the document that starts at
  startPos, is not empty and ends with the \<^verbatim>\<open>>\<close> of a tag.\<close>

definition span_at :: "string \<Rightarrow> nat \<Rightarrow> string \<Rightarrow> bool" where
  "span_at html p el = (el \<noteq> [] \<and> last el = CHR ''>'' \<and> (\<exists>n. el = take n (drop p html)))"

lemma substring_take:
  "a \<le> b \<Longrightarrow> b \<le> length str \<Longrightarrow> substring str a b = take (b - a) (drop a str)"
  by (simp add: substring_def Let_def min_def max_def)

lemma extractElement_returns:
  assumes pl: "plain tagName"
  shows "\<exists>res. extractElement html startPos tagName = Inr res
     \<and> (case res of None \<Rightarrow> True | Some el \<Rightarrow> span_at html startPos el)"
proof (cases "smatch True (Seq Bol (openRx tagName)) (drop startPos html)")
  case None
  with pl show ?thesis
    by (simp add: extractElement_def RegExp_open RegExp_close match_i_open[simplified])
next
  case (Some m)
  from tag_match[OF Some, of tagName] have ne: "whole m \<noteq> []" by simp
  from tag_match_after_gt[OF Some, of tagName]
  have ag: "after_gt html (startPos + length (whole m))" by simp
  from extractLoop_returns[OF pl ag, of 1] obtain pos'
    where l: "extractLoop html tagName 1 (startPos + length (whole m)) = Inr pos'"
      and le: "startPos + length (whole m) \<le> pos'" and ag': "after_gt html pos'" by blast
  from ne le have lt: "startPos < pos'" by (cases "whole m") auto
  from ag' have len: "pos' \<le> length html" and gt: "html ! (pos' - 1) = CHR ''>''"
    by (simp_all add: after_gt_def)
  let ?el = "take (pos' - startPos) (drop startPos html)"
  from lt len have sub: "substring html startPos pos' = ?el"
    by (simp add: substring_take)
  from lt len have n: "length ?el = pos' - startPos" by simp
  with lt have ne': "?el \<noteq> []" by (metis length_0_conv zero_less_diff less_numeral_extra(3))
  have "last ?el = ?el ! (pos' - startPos - 1)"
    using ne' n by (simp add: last_conv_nth)
  also have "\<dots> = html ! (startPos + (pos' - startPos - 1))"
    using lt len by simp
  also have "\<dots> = CHR ''>''" using lt gt by simp
  finally have "span_at html startPos ?el" using ne' by (auto simp: span_at_def)
  with Some l sub pl show ?thesis
    by (simp add: extractElement_def RegExp_open RegExp_close match_i_open[simplified])
qed

section \<open>The tag name that a finder captures\<close>

text \<open>A match changes the captures of the groups of its pattern only.\<close>

lemma fold_clear_length: "length (fold (\<lambda>n cs. cs[n := None]) ns cs) = length cs"
  by (induction ns arbitrary: cs) simp_all

lemma fold_clear_nth: "k \<notin> set ns \<Longrightarrow> fold (\<lambda>n cs. cs[n := None]) ns cs ! k = cs ! k"
  by (induction ns arbitrary: cs) simp_all

lemma ms_caps:
  "t \<in> set (ms ic r s) \<Longrightarrow>
     length (caps t) = length (caps s) \<and> (\<forall>k. k \<notin> set (grps r) \<longrightarrow> caps t ! k = caps s ! k)"
proof (induction ic r s arbitrary: t rule: ms.induct)
  case (1 ic s)
  then show ?case by (simp add: ms.simps(1))
next
  case (2 ic c s)
  then show ?case by (cases "rest s") (auto simp: ms.simps(2) split: if_splits)
next
  case (3 ic pos rs s)
  then show ?case by (cases "rest s") (auto simp: ms.simps(3) split: if_splits)
next
  case (4 ic a b s)
  then obtain u where u: "u \<in> set (ms ic a s)" and t: "t \<in> set (ms ic b u)"
    by (auto simp: ms.simps(4))
  from "4.IH"(1)[OF u] "4.IH"(2)[OF u t] show ?case by simp
next
  case (5 ic r s)
  show ?case
  proof (cases "t = s")
    case True
    then show ?thesis by simp
  next
    case False
    with "5.prems" obtain u where u: "u \<in> set (ms ic r (clear r s))"
      and lt: "length (rest u) < length (rest s)" and t: "t \<in> set (ms ic (Star r) u)"
      unfolding ms.simps(5)[of ic r s] by (auto split: if_splits)
    from "5.IH"(1)[OF u] "5.IH"(2)[OF u lt t] show ?thesis
      by (simp add: clear_def fold_clear_length fold_clear_nth)
  qed
next
  case (6 ic r s)
  then obtain u where u: "u \<in> set (ms ic r (clear r s))" and t: "t \<in> set (ms ic (Star r) u)"
    by (auto simp: ms.simps(6))
  from "6.IH"(1)[OF u] "6.IH"(2)[OF u t] show ?case
    by (simp add: clear_def fold_clear_length fold_clear_nth)
next
  case (7 ic r s)
  show ?case
  proof (cases "t = s")
    case True
    then show ?thesis by simp
  next
    case False
    with "7.prems" have "t \<in> set (ms ic r (clear r s))" by (auto simp: ms.simps(7))
    from "7.IH"[OF this] show ?thesis
      by (simp add: clear_def fold_clear_length fold_clear_nth)
  qed
next
  case (8 ic n r s)
  then obtain u where u: "u \<in> set (ms ic r s)" and t: "t = capture n s u"
    by (auto simp: ms.simps(8))
  from "8.IH"[OF u] t show ?case by (auto simp: capture_def)
next
  case (9 ic s)
  then show ?case by (auto simp: ms.simps(9) split: if_splits)
next
  case (10 ic s)
  then show ?case by (auto simp: ms.simps(10) split: option.splits)
next
  case (11 ic s)
  then show ?case by (auto simp: ms.simps(11) split: list.splits)
qed

text \<open>What a group captures is what its body consumed.\<close>

lemma ms_Grp_capture:
  assumes "t \<in> set (ms ic (Grp n r) s)" "n < length (caps s)"
  shows "\<exists>w. caps t ! n = Some w \<and> rest s = w @ rest t \<and> (\<forall>x \<in> set w. takes ic r x)
           \<and> length (caps t) = length (caps s)"
proof -
  from assms(1) obtain u where u: "u \<in> set (ms ic r s)" and t: "t = capture n s u"
    by (auto simp: ms.simps(8))
  from ms_run[OF u] obtain w where w: "rest s = w @ rest u" "\<forall>x \<in> set w. takes ic r x" by blast
  from ms_caps[OF u] have l: "length (caps u) = length (caps s)" by simp
  from w(1) have "take (length (rest s) - length (rest u)) (rest s) = w" by simp
  with t l assms(2) w show ?thesis by (simp add: capture_def)
qed

text \<open>Letters, digits, \<^verbatim>\<open>_\<close> and \<^verbatim>\<open>-\<close> under the flag i.\<close>

lemma name_canon: "in_ranges name_rs c \<Longrightarrow> in_ranges name_rs (canon True c)"
  by (cases c) (auto simp: in_ranges_def name_rs_def canon_def is_lower_def)

lemma canon_name: "in_ranges name_rs (canon True x) \<Longrightarrow> in_ranges name_rs x"
  by (cases x) (auto simp: in_ranges_def name_rs_def canon_def is_lower_def split: if_splits)

lemma takes_name:
  "in_ranges name_rs c \<Longrightarrow> takes True (Chr c) x \<Longrightarrow> in_ranges name_rs x"
  using name_canon[of c] canon_name[of x] by simp

lemma takes_seqs: "takes ic (seqs rs) x = list_ex (\<lambda>r. takes ic r x) rs"
  by (induction rs) simp_all

lemma takes_plain: "plain t \<Longrightarrow> takes True (seqs (map Chr t)) x \<Longrightarrow> in_ranges name_rs x"
  by (auto simp: takes_seqs plain_def list_ex_iff list_all_iff intro: takes_name)

lemma alnum_mem_name: "cls_mem True alnum_rs x \<Longrightarrow> in_ranges name_rs x"
  by (cases x) (auto simp: cls_mem_def in_ranges_def alnum_rs_def name_rs_def canon_def uncanon_def
      is_lower_def is_upper_def split: if_splits)

lemma takes_anyTag: "takes True anyTag x \<Longrightarrow> in_ranges name_rs x"
proof -
  assume a: "takes True anyTag x"
  have "cls_mem True [(CHR ''a'', CHR ''z''), (CHR ''A'', CHR ''Z'')] x \<Longrightarrow> cls_mem True alnum_rs x"
    by (auto simp: cls_mem_def in_ranges_def alnum_rs_def)
  with a have "cls_mem True alnum_rs x"
    by (auto simp: anyTag_def alnum_def alnum_rs_def)
  then show ?thesis by (rule alnum_mem_name)
qed

lemma takes_tagRx:
  "(case tag of None \<Rightarrow> True | Some t \<Rightarrow> plain t) \<Longrightarrow> takes True (tagRx tag) x \<Longrightarrow> in_ranges name_rs x"
  by (cases tag) (auto simp: tagRx_def intro: takes_anyTag takes_plain)

lemma grps_seqs: "grps (seqs rs) = concat (map grps rs)"
  by (induction rs) simp_all

lemma grps_chars: "concat (map grps (map Chr w)) = []"
  by (induction w) simp_all

lemma fold_max_ge: "n \<in> set ns \<Longrightarrow> n \<le> fold max ns (k::nat)"
proof (induction ns arbitrary: k)
  case Nil
  then show ?case by simp
next
  case (Cons a ns)
  have mono: "k \<le> fold max ns k" for k :: nat
    by (induction ns arbitrary: k) (auto intro: order_trans[OF max.cobounded2])
  from Cons show ?case
    by (auto intro: order_trans[OF max.cobounded1 mono])
qed

lemma class_tag_plain:
  assumes c: "plain c" and tg: "case tag of None \<Rightarrow> True | Some t \<Rightarrow> plain t"
    and ex: "exec True (classRx c tag) html li = Some m"
  shows "plain (interp (grp m 1))"
proof -
  let ?body = "seqs ([Star notGt, WordB] @ map Chr ''class=\"'' @ [Star notQuote, WordB]
                        @ map Chr c @ [WordB, Star notQuote, Chr CHR 0x22, Star notGt])"
  let ?tail = "Seq (Grp 2 ?body) (Seq (Chr CHR ''>'') Eps)"
  let ?r = "classRx c tag"
  have rx: "?r = Seq (Chr CHR ''<'') (Seq (Grp 1 (tagRx tag)) ?tail)"
    by (simp add: classRx_def)
  have g2: "1 \<notin> set (grps ?tail)"
    by (simp add: grps_seqs grps_chars notGt_def notQuote_def)
  from exec_leftmost[OF ex] obtain t ts
    where t: "ms True ?r (at_index ?r html (index m)) = t # ts" and g: "groups m = caps t" by blast
  let ?s = "at_index ?r html (index m)"
  from t have "t \<in> set (ms True ?r ?s)" by simp
  then obtain a b where a: "a \<in> set (ms True (Chr CHR ''<'') ?s)"
    and b: "b \<in> set (ms True (Grp 1 (tagRx tag)) a)" and t': "t \<in> set (ms True ?tail b)"
    unfolding rx by (auto simp: ms.simps(4))
  have "1 \<in> set (grps ?r)" unfolding rx by simp
  from fold_max_ge[OF this, of 0] have "1 < length (caps ?s)"
    by (simp add: at_index_def start_def)
  with ms_caps[OF a] have "1 < length (caps a)" by simp
  from ms_Grp_capture[OF b this] obtain w where w: "caps b ! 1 = Some w"
    "\<forall>x \<in> set w. takes True (tagRx tag) x" "length (caps b) = length (caps a)" by blast
  from ms_caps[OF t'] g2 w \<open>1 < length (caps a)\<close>
  have "caps t ! 1 = Some w" "1 < length (caps t)" by simp_all
  with g have "interp (grp m 1) = w" by (simp add: grp_def interp_def)
  moreover from w(2) tg have "plain w"
    by (auto simp: plain_def list_all_iff intro: takes_tagRx)
  ultimately show ?thesis by simp
qed

section \<open>The finders always return\<close>

lemma exec_Chr_first:
  assumes "exec ic (Seq (Chr c) r) str li = Some m"
  shows "whole m \<noteq> []"
proof -
  from exec_leftmost[OF assms] obtain t ts
    where t: "ms ic (Seq (Chr c) r) (at_index (Seq (Chr c) r) str (index m)) = t # ts"
      and w: "drop (index m) str = whole m @ rest t" by blast
  from t have "t \<in> set (ms ic (Seq (Chr c) r) (at_index (Seq (Chr c) r) str (index m)))" by simp
  from ms_Chr_first[OF this] w show ?thesis by (auto simp: at_index_def rest_start)
qed

text \<open>The elements pushed so far start at increasing offsets below lastIndex.\<close>

definition pushed :: "string \<Rightarrow> nat \<Rightarrow> (nat \<times> string) list \<Rightarrow> bool" where
  "pushed html li els = (sorted_wrt (<) (map fst els) \<and> list_all (\<lambda>(p, el). p < li \<and> span_at html p el) els)"

lemma pushed_mono: "pushed html li els \<Longrightarrow> li \<le> li' \<Longrightarrow> pushed html li' els"
  by (auto simp: pushed_def list_all_iff)

lemma pushed_snoc:
  assumes "pushed html li els" "li \<le> p" "p < li'" "span_at html p el"
  shows "pushed html li' (els @ [(p, el)])"
  using assms by (auto simp: pushed_def list_all_iff sorted_wrt_append)

text \<open>With a pattern that begins with a literal and plain tag names, the loop of a
  finder returns.\<close>

lemma collect_returns:
  "regex = Seq (Chr c) r \<Longrightarrow> (\<forall>li m. exec True regex html li = Some m \<longrightarrow> plain (tagOf m))
     \<Longrightarrow> pushed html lastIndex elements \<Longrightarrow>
     \<exists>ps li. collect regex tagOf html lastIndex elements = Inr ps \<and> pushed html li ps"
proof (induction regex tagOf html lastIndex elements rule: collect.induct)
  case (1 regex tagOf html lastIndex elements)
  show ?case
  proof (cases "exec True regex html lastIndex")
    case None
    with "1.prems"(3) show ?thesis
      by (subst collect.simps) auto
  next
    case (Some m)
    with "1.prems"(2) have "plain (tagOf m)" by blast
    from extractElement_returns[OF this, of html "index m"] obtain element
      where el: "extractElement html (index m) (tagOf m) = Inr element"
        and sp: "case element of None \<Rightarrow> True | Some el \<Rightarrow> span_at html (index m) el" by blast
    from exec_Chr_first[OF Some[unfolded "1.prems"(1)]] have ne: "whole m \<noteq> []" .
    from exec_endIndex[OF Some] have li: "lastIndex \<le> index m" by simp
    from ne have lt: "index m < endIndex m" by (simp add: endIndex_def)
    with li have adv: "\<not> endIndex m \<le> lastIndex" by simp
    let ?acc = "case element of None \<Rightarrow> elements
                | Some el \<Rightarrow> if el \<noteq> [] then elements @ [(index m, el)] else elements"
    have "pushed html (endIndex m) ?acc"
    proof (cases element)
      case None
      with "1.prems"(3) li lt show ?thesis by (auto intro: pushed_mono)
    next
      case (Some el)
      with sp have "span_at html (index m) el" by simp
      from pushed_snoc[OF "1.prems"(3) li lt this] "1.prems"(3) li lt Some
      show ?thesis by (auto intro: pushed_mono)
    qed
    from "1.IH"[OF Some el adv "1.prems"(1,2) this] obtain ps li'
      where "collect regex tagOf html (endIndex m) ?acc = Inr ps" "pushed html li' ps" by blast
    with Some el adv show ?thesis
      by (subst collect.simps) auto
  qed
qed

lemma elements_of_Inr: "elements_of (Inr ps) = Inr (map snd ps)"
  by (simp add: elements_of_def)

section \<open>What a finder returns, whatever the names\<close>

text \<open>For names that are patterns of their own the calls may throw or not return.
  When they return, the elements are pieces of the document in the order of the
  document.\<close>

lemma search_i_le: "search_i source str = Inr (Some k) \<Longrightarrow> k \<le> length str"
  by (auto simp: search_i_def search_def split: sum.splits dest: exec_Some)

lemma match_i_le:
  assumes "match_i source str = Inr (Some m)"
  shows "length (whole m) \<le> length str"
proof -
  from assms obtain r where "exec True r str 0 = Some m"
    by (auto simp: match_i_def smatch_def split: sum.splits)
  from exec_Some[OF this] obtain t where "index m \<le> length str"
    "drop (index m) str = whole m @ rest t" by blast
  then have "length str - index m = length (whole m) + length (rest t)"
    by (metis length_append length_drop)
  then show ?thesis by simp
qed

lemma extractLoop_bounds:
  "extractLoop html tagName depth pos = Inr pos' \<Longrightarrow>
     pos \<le> pos' \<and> (pos \<le> length html \<longrightarrow> pos' \<le> length html)"
proof (induction html tagName depth pos arbitrary: pos' rule: extractLoop.induct)
  case (1 html tagName depth pos)
  show ?case
  proof (cases "0 < depth \<and> pos < length html")
    case False
    with "1.prems" show ?thesis by (simp add: extractLoop_stop)
  next
    case go: True
    from "1.prems" go obtain nextOpen cl
      where o: "search_i (openSrc tagName) (drop pos html) = Inr nextOpen"
        and c: "search_i (closeSrc tagName) (drop pos html) = Inr cl"
      by (subst (asm) extractLoop.simps) (auto split: sum.splits)
    show ?thesis
    proof (cases cl)
      case None
      with "1.prems" go o c show ?thesis
        by (subst (asm) extractLoop.simps) simp
    next
      case (Some nextClose)
      from search_i_le[OF c[unfolded Some]] go have ncl: "pos + nextClose \<le> length html" by auto
      show ?thesis
      proof (cases "case nextOpen of None \<Rightarrow> None
                      | Some opn \<Rightarrow> if opn < nextClose then Some opn else None")
        case None
        with "1.prems" go o c Some obtain m
          where m: "match_i (''^'' @ closeSrc tagName) (drop (pos + nextClose) html) = Inr (Some m)"
            and e: "extractLoop html tagName (depth - 1) (pos + (nextClose + length (whole m))) = Inr pos'"
          by (subst (asm) extractLoop.simps) (auto split: sum.splits option.splits)
        from match_i_le[OF m] ncl
        have "pos + (nextClose + length (whole m)) \<le> length html" by simp
        with "1.IH"(1)[OF go o c Some None m refl e] show ?thesis by simp
      next
        case opn: (Some opn)
        then have lt: "opn < nextClose" by (auto split: option.splits if_splits)
        from "1.prems" go o c Some opn obtain m
          where m: "match_i (''^'' @ openSrc tagName) (drop (pos + opn) html) = Inr (Some m)"
            and adv: "opn + length (whole m) \<noteq> 0"
            and e: "extractLoop html tagName (depth + 1) (pos + (opn + length (whole m))) = Inr pos'"
          by (subst (asm) extractLoop.simps) (auto split: sum.splits option.splits if_splits)
        from match_i_le[OF m] ncl lt
        have "pos + (opn + length (whole m)) \<le> length html" by simp
        with "1.IH"(2)[OF go o c Some opn m refl adv e] show ?thesis by simp
      qed
    qed
  qed
qed

lemma extractElement_piece:
  assumes "extractElement html startPos tagName = Inr (Some el)" "startPos \<le> length html"
  shows "take (length el) (drop startPos html) = el"
proof -
  from assms(1) obtain m pos'
    where m: "match_i (''^'' @ openSrc tagName) (drop startPos html) = Inr (Some m)"
      and l: "extractLoop html tagName 1 (startPos + length (whole m)) = Inr pos'"
      and el: "el = substring html startPos pos'"
    by (auto simp: extractElement_def split: sum.splits option.splits)
  from match_i_le[OF m] assms(2) have "startPos + length (whole m) \<le> length html" by simp
  with extractLoop_bounds[OF l] have "startPos \<le> pos'" "pos' \<le> length html" by simp_all
  with el show ?thesis by (simp add: substring_take)
qed

text \<open>The elements pushed so far are pieces of the document that start at increasing
  offsets below lastIndex.\<close>

definition placed :: "string \<Rightarrow> nat \<Rightarrow> (nat \<times> string) list \<Rightarrow> bool" where
  "placed html li els =
     (sorted_wrt (<) (map fst els)
      \<and> list_all (\<lambda>(p, el). p < li \<and> el \<noteq> [] \<and> take (length el) (drop p html) = el) els)"

lemma placed_mono: "placed html li els \<Longrightarrow> li \<le> li' \<Longrightarrow> placed html li' els"
  by (auto simp: placed_def list_all_iff)

lemma placed_snoc:
  assumes "placed html li els" "li \<le> p" "p < li'" "el \<noteq> []" "take (length el) (drop p html) = el"
  shows "placed html li' (els @ [(p, el)])"
  using assms by (auto simp: placed_def list_all_iff sorted_wrt_append)

text \<open>A match found from lastIndex on is found again from its own index on, so
  that after an empty match the loop does not return.\<close>

lemma exec_again:
  assumes "exec ic r str li = Some m"
  shows "\<exists>m'. exec ic r str (index m) = Some m' \<and> index m' = index m \<and> whole m' = whole m"
proof -
  from exec_leftmost[OF assms] obtain t ts where le: "index m \<le> length str"
    and t: "ms ic r (at_index r str (index m)) = t # ts"
    and w: "drop (index m) str = whole m @ rest t" by blast
  from t have "ms ic r (at_index r str (index m)) \<noteq> []" by simp
  from exec_finds[OF this order_refl le] obtain m'
    where m': "exec ic r str (index m) = Some m'" and i: "index m' \<le> index m" by blast
  from exec_leftmost[OF m'] obtain t' ts' where ge: "index m \<le> index m'"
    and t': "ms ic r (at_index r str (index m')) = t' # ts'"
    and w': "drop (index m') str = whole m' @ rest t'" by blast
  from i ge have eq: "index m' = index m" by simp
  with t t' have "t' = t" by simp
  with w w' eq have "whole m' = whole m" by simp
  with m' eq show ?thesis by simp
qed

lemma collect_empty_match:
  assumes "exec True regex html li = Some m" "endIndex m \<le> li"
  shows "collect regex tagOf html li els \<noteq> Inr ps"
  using assms by (subst collect.simps) (auto split: sum.splits)

lemma collect_placed:
  "collect regex tagOf html lastIndex elements = Inr ps \<Longrightarrow> placed html lastIndex elements
     \<Longrightarrow> \<exists>li. placed html li ps"
proof (induction regex tagOf html lastIndex elements rule: collect.induct)
  case (1 regex tagOf html lastIndex elements)
  show ?case
  proof (cases "exec True regex html lastIndex")
    case None
    with "1.prems" show ?thesis
      by (subst (asm) collect.simps) auto
  next
    case (Some m)
    let ?acc = "\<lambda>element. case element of None \<Rightarrow> elements
                | Some el \<Rightarrow> if el \<noteq> [] then elements @ [(index m, el)] else elements"
    from "1.prems"(1) Some obtain element
      where el: "extractElement html (index m) (tagOf m) = Inr element"
        and adv: "\<not> endIndex m \<le> lastIndex"
        and c: "collect regex tagOf html (endIndex m) (?acc element) = Inr ps"
      by (subst (asm) collect.simps) (auto split: sum.splits if_splits)
    from exec_endIndex[OF Some] have li: "lastIndex \<le> index m" "index m \<le> length html"
      by (simp_all add: endIndex_def)
    have ne: "whole m \<noteq> []"
    proof
      assume e: "whole m = []"
      from exec_again[OF Some] obtain m' where "exec True regex html (index m) = Some m'"
        "index m' = index m" "whole m' = whole m" by blast
      with e have "exec True regex html (endIndex m) = Some m'" "endIndex m' \<le> endIndex m"
        by (simp_all add: endIndex_def)
      from collect_empty_match[OF this] c show False by blast
    qed
    then have lt: "index m < endIndex m" by (simp add: endIndex_def)
    from li lt have le: "lastIndex \<le> endIndex m" by simp
    have "placed html (endIndex m) (?acc element)"
    proof (cases element)
      case None
      with "1.prems"(2) le show ?thesis by (auto intro: placed_mono)
    next
      case (Some el)
      show ?thesis
      proof (cases "el = []")
        case True
        with Some "1.prems"(2) le show ?thesis by (auto intro: placed_mono)
      next
        case False
        from extractElement_piece[OF el[unfolded Some] li(2)]
        have "take (length el) (drop (index m) html) = el" .
        from placed_snoc[OF "1.prems"(2) li(1) lt False this] Some False
        show ?thesis by simp
      qed
    qed
    from "1.IH"[OF Some el adv c this] show ?thesis .
  qed
qed

section \<open>Greedy runs of a class\<close>

lemma clear_Cls: "clear (Cls pos rs) s = s"
  by (cases s) (simp add: clear_def)

lemma ms_Cls_Cons:
  "ms ic (Cls pos rs) (St p (x # xs) cs) = (if cls_mem ic rs x = pos then [St (Some x) xs cs] else [])"
  by (simp add: ms.simps(3))

lemma ms_Cls_Nil: "ms ic (Cls pos rs) (St p [] cs) = []"
  by (simp add: ms.simps(3))

lemma ms_Chr_Cons:
  "ms ic (Chr c) (St p (x # xs) cs) = (if canon ic x = canon ic c then [St (Some x) xs cs] else [])"
  by (simp add: ms.simps(2))

lemma ms_Chr_Nil: "ms ic (Chr c) (St p [] cs) = []"
  by (simp add: ms.simps(2))

text \<open>The first choice of \<^verbatim>\<open>[...]*\<close> is the longest run of members of the class.\<close>

lemma star_cls_hd:
  assumes "\<forall>x \<in> set us. cls_mem ic rs x = pos" "ys = [] \<or> cls_mem ic rs (hd ys) \<noteq> pos"
  shows "\<exists>ts. ms ic (Star (Cls pos rs)) (St p (us @ ys) cs) = St (lastp p us) ys cs # ts"
  using assms(1)
proof (induction us arbitrary: p)
  case Nil
  from assms(2) have "ms ic (Cls pos rs) (St p ys cs) = []"
    by (cases ys) (auto simp: ms_Cls_Cons ms_Cls_Nil)
  then have "ms ic (Star (Cls pos rs)) (St p ys cs) = [St p ys cs]"
    by (simp add: ms.simps(5) clear_Cls)
  then show ?case by (simp add: lastp_def)
next
  case (Cons x us)
  then have x: "cls_mem ic rs x = pos" by simp
  from Cons obtain ts where
    ih: "ms ic (Star (Cls pos rs)) (St (Some x) (us @ ys) cs) = St (lastp (Some x) us) ys cs # ts"
    by fastforce
  from x have "ms ic (Star (Cls pos rs)) (St p ((x # us) @ ys) cs)
      = ms ic (Star (Cls pos rs)) (St (Some x) (us @ ys) cs) @ [St p ((x # us) @ ys) cs]"
    by (simp add: ms.simps(5)[of ic "Cls pos rs" "St p (x # us @ ys) cs"] clear_Cls ms_Cls_Cons)
  with ih show ?case by (simp add: lastp_Cons[of x us p])
qed

lemma in_ranges_single: "in_ranges [(c, c)] x = (x = c)"
  by (auto simp: in_ranges_def)

section \<open>getText\<close>

lemma anyTagRx_matches:
  assumes "CHR ''>'' \<in> set xs"
  shows "ms False anyTagRx (St p (CHR ''<'' # xs) cs) \<noteq> []"
proof -
  from split_list_first[OF assms] obtain us vs
    where xs: "xs = us @ CHR ''>'' # vs" and us: "CHR ''>'' \<notin> set us" by blast
  from us have "\<forall>x \<in> set us. cls_mem False [(CHR ''>'', CHR ''>'')] x = False"
    by (auto simp: cls_mem_def in_ranges_single)
  moreover have "CHR ''>'' # vs = [] \<or> cls_mem False [(CHR ''>'', CHR ''>'')] (hd (CHR ''>'' # vs)) \<noteq> False"
    by (simp add: cls_mem_def in_ranges_single)
  ultimately obtain ts where
    "ms False (Star notGt) (St (Some CHR ''<'') (us @ CHR ''>'' # vs) cs)
       = St (lastp (Some CHR ''<'') us) (CHR ''>'' # vs) cs # ts"
    unfolding notGt_def using star_cls_hd by blast
  then show ?thesis
    by (simp add: anyTagRx_def xs ms.simps(4)[of False] ms.simps(1) ms_Chr_Cons canon_def)
qed

lemma anyTagRx_at_lt:
  assumes "k < length str" "str ! k = CHR ''<''" "last str = CHR ''>''"
  shows "ms False anyTagRx (at_index anyTagRx str k) \<noteq> []"
proof -
  from assms(1,2) have d: "drop k str = CHR ''<'' # drop (Suc k) str"
    by (metis Cons_nth_drop_Suc)
  from assms(1) have "last (drop k str) = CHR ''>''" using assms(3) by simp
  with d have "drop (Suc k) str \<noteq> [] \<and> last (drop (Suc k) str) = CHR ''>''"
    by (cases "drop (Suc k) str") auto
  then have "CHR ''>'' \<in> set (drop (Suc k) str)" by (metis last_in_set)
  from anyTagRx_matches[OF this] d show ?thesis
    by (simp add: at_index_def start_def)
qed

lemma anyTagRx_nonempty: "exec False anyTagRx str li = Some m \<Longrightarrow> whole m \<noteq> []"
  unfolding anyTagRx_def seqs.simps by (rule exec_Chr_first)

text \<open>In a string that ends with \<^verbatim>\<open>>\<close> every \<^verbatim>\<open><\<close> opens a match of
  \<^verbatim>\<open><[^>]*>\<close>, so none is left.\<close>

lemma replace_g_no_lt:
  "ic = False \<Longrightarrow> r = anyTagRx \<Longrightarrow> rep = [] \<Longrightarrow> nextPos = lastIndex \<Longrightarrow>
     last str = CHR ''>'' \<Longrightarrow> CHR ''<'' \<notin> set (replace_g ic r rep str lastIndex nextPos)"
proof (induction ic r rep str lastIndex nextPos rule: replace_g.induct)
  case (1 ic r rep str lastIndex nextPos)
  note eqs = "1.prems"(1-4)
  note assms = "1.prems"(5)
  show ?case
  proof (cases "exec False anyTagRx str lastIndex")
    case None
    have "CHR ''<'' \<notin> set (drop lastIndex str)"
    proof
      assume "CHR ''<'' \<in> set (drop lastIndex str)"
      then obtain j where j: "j < length (drop lastIndex str)" "drop lastIndex str ! j = CHR ''<''"
        by (auto simp: in_set_conv_nth)
      then have k: "lastIndex + j < length str" "str ! (lastIndex + j) = CHR ''<''" by auto
      from anyTagRx_at_lt[OF k assms] exec_None_all[OF None, of "lastIndex + j"] k(1)
      show False by simp
    qed
    with None eqs show ?thesis by (subst replace_g.simps) simp
  next
    case (Some m)
    from anyTagRx_nonempty[OF Some] have ne: "whole m \<noteq> []" .
    from exec_leftmost[OF Some] have li: "lastIndex \<le> index m" and le: "index m \<le> length str"
      and none: "\<forall>k. lastIndex \<le> k \<and> k < index m \<longrightarrow> ms False anyTagRx (at_index anyTagRx str k) = []"
      by auto
    have seg: "CHR ''<'' \<notin> set (substring str lastIndex (index m))"
    proof
      assume "CHR ''<'' \<in> set (substring str lastIndex (index m))"
      then have "CHR ''<'' \<in> set (take (index m - lastIndex) (drop lastIndex str))"
        using li le by (simp add: substring_take)
      then obtain j where j: "j < index m - lastIndex" "j < length (drop lastIndex str)"
        "drop lastIndex str ! j = CHR ''<''"
        by (auto simp: in_set_conv_nth)
      then have k: "lastIndex + j < length str" "str ! (lastIndex + j) = CHR ''<''" by auto
      from anyTagRx_at_lt[OF k assms] none j(1) show False by simp
    qed
    from "1.IH"[of m] Some eqs ne li assms
    have "CHR ''<'' \<notin> set (replace_g ic r rep str (endIndex m) (endIndex m))" by simp
    with Some eqs ne li seg show ?thesis by (subst replace_g.simps) simp
  qed
qed

lemma set_trim: "set (trim str) \<subseteq> set str"
  by (auto simp: trim_def dest!: set_dropWhileD)

lemma getText_no_lt:
  assumes "last str = CHR ''>''"
  shows "CHR ''<'' \<notin> set (getText str)"
  using replace_g_no_lt[OF refl refl refl refl assms, of 0] set_trim
  unfolding getText_def by blast

section \<open>The pieces of a selector\<close>

text \<open>The first way to match, which is the match that exec reports when the rest of
  the pattern accepts it.\<close>

definition firstm :: "bool \<Rightarrow> rx \<Rightarrow> st \<Rightarrow> st \<Rightarrow> bool" where
  "firstm ic r s t = (\<exists>ts. ms ic r s = t # ts)"

lemma first_Seq: "firstm ic a s u \<Longrightarrow> firstm ic b u t \<Longrightarrow> firstm ic (Seq a b) s t"
  by (auto simp: firstm_def ms.simps(4))

lemma first_Eps: "firstm ic Eps s s"
  by (simp add: firstm_def ms.simps(1))

lemma first_Bol: "prev s = None \<Longrightarrow> firstm ic Bol s s"
  by (simp add: firstm_def ms.simps(10))

lemma first_Eol: "rest s = [] \<Longrightarrow> firstm ic Eol s s"
  by (simp add: firstm_def ms.simps(11))

lemma first_Grp: "firstm ic r s t \<Longrightarrow> firstm ic (Grp n r) s (capture n s t)"
  by (auto simp: firstm_def ms.simps(8))

lemma first_Opt_take:
  "firstm ic r (clear r s) t \<Longrightarrow> length (rest t) < length (rest s) \<Longrightarrow> firstm ic (Opt r) s t"
  by (auto simp: firstm_def ms.simps(7))

lemma first_Opt_skip:
  "list_all (\<lambda>t. \<not> length (rest t) < length (rest s)) (ms ic r (clear r s)) \<Longrightarrow> firstm ic (Opt r) s s"
  by (auto simp: firstm_def ms.simps(7) list_all_iff filter_empty_conv)

lemma star_cls_none:
  assumes "ys = [] \<or> cls_mem ic rs (hd ys) \<noteq> pos"
  shows "ms ic (Star (Cls pos rs)) (St p ys cs) = [St p ys cs]"
proof -
  from assms have "ms ic (Cls pos rs) (St p ys cs) = []"
    by (cases ys) (auto simp: ms_Cls_Cons ms_Cls_Nil)
  then show ?thesis by (simp add: ms.simps(5) clear_Cls)
qed

lemma first_Star_cls:
  assumes "\<forall>x \<in> set us. cls_mem ic rs x = pos" "ys = [] \<or> cls_mem ic rs (hd ys) \<noteq> pos"
  shows "firstm ic (Star (Cls pos rs)) (St p (us @ ys) cs) (St (lastp p us) ys cs)"
  using star_cls_hd[OF assms] by (simp add: firstm_def)

lemma first_Plus_cls:
  assumes "us \<noteq> []" "\<forall>x \<in> set us. cls_mem ic rs x = pos" "ys = [] \<or> cls_mem ic rs (hd ys) \<noteq> pos"
  shows "firstm ic (Plus (Cls pos rs)) (St p (us @ ys) cs) (St (lastp p us) ys cs)"
proof -
  from assms(1) obtain x us' where us: "us = x # us'" by (cases us) auto
  with assms(2) have x: "cls_mem ic rs x = pos" and r: "\<forall>y \<in> set us'. cls_mem ic rs y = pos"
    by auto
  from star_cls_hd[OF r assms(3)] obtain ts
    where "ms ic (Star (Cls pos rs)) (St (Some x) (us' @ ys) cs) = St (lastp (Some x) us') ys cs # ts"
    by blast
  with x us show ?thesis
    by (simp add: firstm_def ms.simps(6) clear_Cls ms_Cls_Cons lastp_Cons[of x us' p])
qed

text \<open>\<^verbatim>\<open>([...]*)?\<close> before a code unit outside the class: the group takes the whole run,
  and takes no part when the run is empty.\<close>

lemma opt_star_piece:
  assumes "\<forall>x \<in> set us. cls_mem ic rs x" "ys = [] \<or> \<not> cls_mem ic rs (hd ys)"
  shows "firstm ic (Opt (Grp n (Star (Cls True rs)))) (St p (us @ ys) cs)
           (if us = [] then St p (us @ ys) cs else St (lastp p us) ys (cs[n := Some us]))"
proof (cases "us = []")
  case True
  from assms(2) have "ms ic (Star (Cls True rs)) (St p ys (cs[n := None])) = [St p ys (cs[n := None])]"
    by (intro star_cls_none) auto
  then have "ms ic (Grp n (Star (Cls True rs))) (clear (Grp n (Star (Cls True rs))) (St p ys cs))
      = [capture n (St p ys (cs[n := None])) (St p ys (cs[n := None]))]"
    by (simp add: ms.simps(8) clear_def)
  then have "firstm ic (Opt (Grp n (Star (Cls True rs)))) (St p ys cs) (St p ys cs)"
    by (intro first_Opt_skip) (simp add: capture_def)
  with True show ?thesis by simp
next
  case False
  let ?s = "St p (us @ ys) (cs[n := None])"
  from assms(1,2) have "firstm ic (Star (Cls True rs)) ?s (St (lastp p us) ys (cs[n := None]))"
    by (intro first_Star_cls) auto
  from first_Grp[OF this, of n]
  have "firstm ic (Grp n (Star (Cls True rs))) ?s (St (lastp p us) ys (cs[n := Some us]))"
    by (simp add: capture_def)
  then have "firstm ic (Grp n (Star (Cls True rs)))
      (clear (Grp n (Star (Cls True rs))) (St p (us @ ys) cs)) (St (lastp p us) ys (cs[n := Some us]))"
    by (simp add: clear_def)
  from first_Opt_take[OF this] False show ?thesis by simp
qed

text \<open>\<^verbatim>\<open>(c[...]+)?\<close>: the group takes the sign and the run after it; without the sign
  it takes no part.\<close>

lemma opt_plus_piece:
  assumes "us \<noteq> []" "\<forall>x \<in> set us. cls_mem False rs x" "ys = [] \<or> \<not> cls_mem False rs (hd ys)"
  shows "firstm False (Opt (Grp n (Seq (Chr c) (Plus (Cls True rs))))) (St p (c # us @ ys) cs)
           (St (lastp p (c # us)) ys (cs[n := Some (c # us)]))"
proof -
  let ?r = "Seq (Chr c) (Plus (Cls True rs))"
  let ?s = "St p (c # us @ ys) (cs[n := None])"
  have "firstm False (Chr c) ?s (St (Some c) (us @ ys) (cs[n := None]))"
    by (simp add: firstm_def ms_Chr_Cons)
  moreover from assms
  have "firstm False (Plus (Cls True rs)) (St (Some c) (us @ ys) (cs[n := None]))
          (St (lastp (Some c) us) ys (cs[n := None]))"
    by (intro first_Plus_cls) auto
  ultimately have "firstm False ?r ?s (St (lastp (Some c) us) ys (cs[n := None]))"
    by (rule first_Seq)
  from first_Grp[OF this, of n]
  have "firstm False (Grp n ?r) ?s (St (lastp p (c # us)) ys (cs[n := Some (c # us)]))"
    by (simp add: capture_def lastp_Cons[of c us p])
  then have "firstm False (Grp n ?r) (clear (Grp n ?r) (St p (c # us @ ys) cs))
      (St (lastp p (c # us)) ys (cs[n := Some (c # us)]))"
    by (simp add: clear_def)
  from first_Opt_take[OF this] show ?thesis by simp
qed

lemma opt_piece_skip:
  assumes "ys = [] \<or> hd ys \<noteq> c"
  shows "firstm False (Opt (Grp n (Seq (Chr c) r))) (St p ys cs) (St p ys cs)"
proof -
  from assms have "ms False (Chr c) (St p ys (fold (\<lambda>n cs. cs[n := None]) (grps r) (cs[n := None]))) = []"
    by (cases ys) (auto simp: ms_Chr_Cons ms_Chr_Nil canon_def)
  then have "ms False (Grp n (Seq (Chr c) r)) (clear (Grp n (Seq (Chr c) r)) (St p ys cs)) = []"
    by (simp add: ms.simps(4,8) clear_def)
  then show ?thesis by (intro first_Opt_skip) simp
qed

lemma scan_here: "ms ic r (start r p xs) = t # ts \<Longrightarrow> scan ic r p xs i = Some (i, t)"
  by (cases xs) auto

lemma first_Chr: "firstm ic (Chr c) (St p (c # xs) cs) (St (Some c) xs cs)"
  by (simp add: firstm_def ms_Chr_Cons)

lemma first_chrs:
  "firstm ic (seqs rs) (St (lastp p w) ys cs) t
     \<Longrightarrow> firstm ic (seqs (map Chr w @ rs)) (St p (w @ ys) cs) t"
proof (induction w arbitrary: p)
  case Nil
  then show ?case by (simp add: lastp_def)
next
  case (Cons x w)
  from Cons.prems have "firstm ic (seqs rs) (St (lastp (Some x) w) ys cs) t"
    by (simp add: lastp_Cons[of x w p])
  from first_Seq[OF first_Chr Cons.IH[OF this]] show ?case by simp
qed

lemma uncanon_gt: "uncanon x = CHR ''>'' \<Longrightarrow> x = CHR ''>''"
  by (cases x) (auto simp: uncanon_def is_upper_def split: if_splits)

lemma canon_True_gt: "canon True x = CHR ''>'' \<Longrightarrow> x = CHR ''>''"
  by (cases x) (auto simp: canon_def is_lower_def split: if_splits)

lemma notGt_mem: "cls_mem ic [(CHR ''>'', CHR ''>'')] x = (x = CHR ''>'')"
  using canon_True_gt[of x] uncanon_gt[of x]
  by (auto simp: cls_mem_def in_ranges_single)

lemma grps_chrs: "grps (seqs (map Chr w @ rs)) = grps (seqs rs)"
  by (induction w) simp_all

text \<open>The opening pattern of a plain name accepts every tag that begins with the name.\<close>

lemma openRx_accepts:
  assumes "CHR ''>'' \<notin> set more"
  shows "smatch True (Seq Bol (openRx tagName)) (CHR ''<'' # tagName @ more @ CHR ''>'' # tail)
           = Some (RMatch 0 (CHR ''<'' # tagName @ more @ [CHR ''>'']) [None])"
proof -
  let ?str = "CHR ''<'' # tagName @ more @ CHR ''>'' # tail"
  let ?r = "Seq Bol (openRx tagName)"
  have st: "start ?r None ?str = St None ?str [None]"
    by (simp add: start_def openRx_def notGt_def grps_chrs)
  from assms have "firstm True (Star notGt) (St (lastp (Some CHR ''<'') tagName) (more @ CHR ''>'' # tail) [None])
      (St (lastp (lastp (Some CHR ''<'') tagName) more) (CHR ''>'' # tail) [None])"
    unfolding notGt_def by (intro first_Star_cls) (auto simp: notGt_mem)
  moreover have "firstm True (Seq (Chr CHR ''>'') Eps) (St (lastp (lastp (Some CHR ''<'') tagName) more) (CHR ''>'' # tail) [None])
      (St (Some CHR ''>'') tail [None])"
    by (rule first_Seq[OF first_Chr first_Eps])
  ultimately have "firstm True (seqs [Star notGt, Chr CHR ''>''])
      (St (lastp (Some CHR ''<'') tagName) (more @ CHR ''>'' # tail) [None]) (St (Some CHR ''>'') tail [None])"
    unfolding seqs.simps by (rule first_Seq)
  from first_Seq[OF first_Chr first_chrs[OF this]]
  have "firstm True (openRx tagName) (St None ?str [None]) (St (Some CHR ''>'') tail [None])"
    by (simp add: openRx_def)
  from first_Seq[OF first_Bol this]
  have "firstm True ?r (St None ?str [None]) (St (Some CHR ''>'') tail [None])" by simp
  then obtain ts where "ms True ?r (start ?r None ?str) = St (Some CHR ''>'') tail [None] # ts"
    by (auto simp: firstm_def st)
  from scan_here[OF this, of 0]
  show ?thesis by (simp add: smatch_def exec_def char_before_def)
qed

section \<open>The claims\<close>

text \<open>
  The claims C1 to C10 about HtmlParser.js. A tag, class, id or attribute name
  is spliced into a pattern source and read by \<open>RegExp\<close>: it is a pattern of its
  own. Where a claim is about names and not about patterns, it is stated for
  plain names, which stand for themselves.
\<close>

section \<open>Documents used as examples\<close>

definition doc_unclosed :: string where
  "doc_unclosed = ''<div class=\"x\">''"

definition doc_unclosed_text :: string where
  "doc_unclosed_text = ''<div id=\"y\" data-k=\"v\">text''"

definition doc_upper :: string where
  "doc_upper = ''<DIV CLASS=\"foo\">text</DIV>''"

definition doc_foo :: string where
  "doc_foo = ''<div class=\"foo\">x</div>''"

definition doc_nested :: string where
  "doc_nested = ''<div id=\"a\"><div id=\"b\">x</div>y</div>''"

definition doc_divider :: string where
  "doc_divider = ''<divider>a</div>''"

definition doc_plain :: string where
  "doc_plain = ''<div>x</div>''"

definition doc_links :: "string list" where
  "doc_links = [''<a class=\"link\" href=\"/x\">L</a>'', ''<p>t</p>'']"

definition doc_gt :: string where
  "doc_gt = ''<p>a>b</p>''"

definition doc_bold :: string where
  "doc_bold = ''<p> a <b>c</b> </p>''"

definition doc_items :: string where
  "doc_items = ''<li class=\"item\">X</li><li class=\"item\">Y</li><li class=\"item\">Z</li>''"

definition doc_both :: string where
  "doc_both = ''<div class=\"c\" id=\"i\"><p>x</p></div>''"

definition doc_digit :: string where
  "doc_digit = ''<9lives>x</9lives>''"

section \<open>Elements without a closing tag\<close>

text \<open>
  C1 (the code departs from the claim). For the document \<^verbatim>\<open><div class="x">\<close>, which
  has no closing tag, extractElement returns the opening tag as the element
  instead of null, and getByTag and getByClass return it as an element: after
  \<^verbatim>\<open>if (nextClose === -1) break\<close>, and also when the opening tag ends the document,
  the function returns \<^verbatim>\<open>html.substring(startPos, pos)\<close>. In the same way
  getElementById and getByDataAttr return the opening tag of
  \<^verbatim>\<open><div id="y" data-k="v">text\<close>, a span cut short before the text.
\<close>

theorem C1_unclosed_element_is_returned:
  "extractElement doc_unclosed 0 ''div'' = Inr (Some doc_unclosed)
   \<and> getByTag doc_unclosed ''div'' None = Inr [doc_unclosed]
   \<and> getByClass doc_unclosed ''x'' None = Inr [doc_unclosed]
   \<and> getElementById doc_unclosed_text ''y'' = Inr [''<div id=\"y\" data-k=\"v\">'']
   \<and> getByDataAttr doc_unclosed_text ''k'' = Inr [''<div id=\"y\" data-k=\"v\">'']"
  by code_simp

section \<open>Case of names and values\<close>

text \<open>
  C2 (the code departs from the claim). The first half holds: the upper case
  document is found by class foo and tag div. The second half fails: the flag i
  covers the whole pattern, so the class name Foo finds an element of class foo.
\<close>

theorem C2_class_value_matched_without_case:
  "getByClass doc_upper ''foo'' (Some ''div'') = Inr [doc_upper]
   \<and> getByClass doc_foo ''Foo'' None = Inr [doc_foo]"
  by code_simp

section \<open>Nested elements of one name\<close>

text \<open>Rules that run the matcher on a document of which only the beginning is
  known.\<close>

lemma ms_Star_Cls_Cons:
  "ms ic (Star (Cls pos rs)) (St p (x # xs) cs) =
     (if cls_mem ic rs x = pos then ms ic (Star (Cls pos rs)) (St (Some x) xs cs) @ [St p (x # xs) cs]
      else [St p (x # xs) cs])"
  by (simp add: ms.simps(5)[of ic "Cls pos rs" "St p (x # xs) cs"] clear_Cls ms_Cls_Cons)

lemma ms_Star_Cls_Nil: "ms ic (Star (Cls pos rs)) (St p [] cs) = [St p [] cs]"
  by (simp add: ms.simps(5)[of ic "Cls pos rs" "St p [] cs"] clear_Cls ms_Cls_Nil)

lemmas run_rules = ms.simps(1,2,3,4,8,9,10,11) ms_Star_Cls_Cons ms_Star_Cls_Nil start_def
  exec_def search_def smatch_def canon_def cls_mem_def in_ranges_def is_lower_def is_upper_def
  uncanon_def word_before_def word_after_def is_word_def capture_def char_before_def
  notGt_def notQuote_def alnum_def anyTag_def

text \<open>The pattern of getElementById for a plain id.\<close>

definition idRx :: "string \<Rightarrow> rx" where
  "idRx ident =
     seqs [Chr CHR ''<'', Grp 1 anyTag,
           Grp 2 (seqs ([Star notGt, WordB] @ map Chr ''id=\"'' @ map Chr ident
                        @ [Chr CHR 0x22, Star notGt])),
           Chr CHR ''>'']"

lemma RegExp_id: "plain i \<Longrightarrow> RegExp (idSrc i) = Inr (idRx i)"
  by (simp add: RegExp_def idSrc_def idRx_def anyTag_def wb_def
      pa.simps pa_plain cls_items.simps notGt_def notQuote_def alnum_def quantifiable_def quant_def)

lemma search_not_here:
  assumes "canon ic x \<noteq> canon ic c"
  shows "search ic (Seq (Chr c) r) (x # xs) \<noteq> Some 0"
proof
  assume "search ic (Seq (Chr c) r) (x # xs) = Some 0"
  from search_Some[OF this] have "ms ic (Seq (Chr c) r) (at_index (Seq (Chr c) r) (x # xs) 0) \<noteq> []"
    by simp
  with assms show False
    by (simp add: at_index_def start_def ms.simps(2,4))
qed

lemma no_open_before_1:
  assumes "canon True x \<noteq> canon True CHR ''<''"
  shows "(case search True (openRx n) (x # xs) of None \<Rightarrow> None
          | Some opn \<Rightarrow> if opn < 1 then Some opn else None) = None"
proof (cases "search True (openRx n) (x # xs)")
  case None
  then show ?thesis by simp
next
  case (Some opn)
  from search_not_here[OF assms, of "seqs (map Chr n @ [Star notGt, Chr CHR ''>''])" xs] Some
  have "opn \<noteq> 0" by (auto simp: openRx_def)
  with Some show ?thesis by simp
qed

lemma plain_div: "plain ''div''"
  by (simp add: plain_def in_ranges_def name_rs_def)

text \<open>The rounds of the loop on \<^verbatim>\<open><div id="a"><div id="b">x</div>y</div>\<close> followed by
  any text: from offset 12 the inner opening tag comes first, from 24 and from 31 a
  closing tag.\<close>

lemma nested_round_12:
  "extractLoop (doc_nested @ tail) ''div'' 1 12 = extractLoop (doc_nested @ tail) ''div'' 2 24"
proof -
  let ?h = "doc_nested @ tail"
  have len: "12 < length ?h" by (simp add: doc_nested_def)
  have c: "search True (closeRx ''div'') (drop 12 ?h) = Some 13"
    by (simp add: run_rules closeRx_def doc_nested_def)
  have opn: "(case search True (openRx ''div'') (drop 12 ?h) of None \<Rightarrow> None
             | Some opn \<Rightarrow> if opn < 13 then Some opn else None) = Some 0"
    by (simp add: run_rules openRx_def doc_nested_def)
  have m: "smatch True (Seq Bol (openRx ''div'')) (drop (12 + 0) ?h)
              = Some (RMatch 0 ''<div id=\"b\">'' [None])"
    by (simp add: run_rules openRx_def doc_nested_def)
  show ?thesis
    using extractLoop_open[OF plain_div _ len c opn m, where depth = 1]
    by (simp add: numeral_2_eq_2)
qed

lemma nested_round_24:
  assumes "0 < depth"
  shows "extractLoop (doc_nested @ tail) ''div'' depth 24
           = extractLoop (doc_nested @ tail) ''div'' (depth - 1) 31"
proof -
  let ?h = "doc_nested @ tail"
  have len: "24 < length ?h" by (simp add: doc_nested_def)
  have c: "search True (closeRx ''div'') (drop 24 ?h) = Some 1"
    by (simp add: run_rules closeRx_def doc_nested_def)
  have opn: "(case search True (openRx ''div'') (drop 24 ?h) of None \<Rightarrow> None
             | Some opn \<Rightarrow> if opn < 1 then Some opn else None) = None"
    using no_open_before_1[of "CHR ''x''" "''div''" "''</div>y</div>'' @ tail"]
    by (simp add: doc_nested_def canon_def is_lower_def)
  have m: "smatch True (Seq Bol (closeRx ''div'')) (drop (24 + 1) ?h)
              = Some (RMatch 0 ''</div>'' [None])"
    by (simp add: run_rules closeRx_def doc_nested_def)
  show ?thesis
    using extractLoop_close[OF plain_div assms len c opn m] by simp
qed

lemma nested_round_31:
  assumes "0 < depth"
  shows "extractLoop (doc_nested @ tail) ''div'' depth 31
           = extractLoop (doc_nested @ tail) ''div'' (depth - 1) 38"
proof -
  let ?h = "doc_nested @ tail"
  have len: "31 < length ?h" by (simp add: doc_nested_def)
  have c: "search True (closeRx ''div'') (drop 31 ?h) = Some 1"
    by (simp add: run_rules closeRx_def doc_nested_def)
  have opn: "(case search True (openRx ''div'') (drop 31 ?h) of None \<Rightarrow> None
             | Some opn \<Rightarrow> if opn < 1 then Some opn else None) = None"
    using no_open_before_1[of "CHR ''y''" "''div''" "''</div>'' @ tail"]
    by (simp add: doc_nested_def canon_def is_lower_def)
  have m: "smatch True (Seq Bol (closeRx ''div'')) (drop (31 + 1) ?h)
              = Some (RMatch 0 ''</div>'' [None])"
    by (simp add: run_rules closeRx_def doc_nested_def)
  show ?thesis
    using extractLoop_close[OF plain_div assms len c opn m] by simp
qed

lemma nested_outer:
  "extractElement (doc_nested @ tail) 0 ''div'' = Inr (Some doc_nested)"
proof -
  let ?h = "doc_nested @ tail"
  have m: "smatch True (Seq Bol (openRx ''div'')) ?h = Some (RMatch 0 ''<div id=\"a\">'' [None])"
    by (simp add: run_rules openRx_def doc_nested_def)
  have "extractLoop ?h ''div'' 1 12 = Inr 38"
    using nested_round_12[of tail] nested_round_24[of 2 tail] nested_round_31[of 1 tail]
    by (simp add: extractLoop_stop)
  moreover have "substring ?h 0 38 = doc_nested"
    by (simp add: substring_def doc_nested_def)
  ultimately show ?thesis using m
    by (simp add: extractElement_def RegExp_open RegExp_close match_i_open[simplified] plain_div
        eval_nat_numeral)
qed

lemma nested_inner:
  "extractElement (doc_nested @ tail) 12 ''div'' = Inr (Some ''<div id=\"b\">x</div>'')"
proof -
  let ?h = "doc_nested @ tail"
  have m: "smatch True (Seq Bol (openRx ''div'')) (drop 12 ?h)
             = Some (RMatch 0 ''<div id=\"b\">'' [None])"
    by (simp add: run_rules openRx_def doc_nested_def)
  have "extractLoop ?h ''div'' 1 24 = Inr 31"
    using nested_round_24[of 1 tail] by (simp add: extractLoop_stop)
  moreover have "substring ?h 12 31 = ''<div id=\"b\">x</div>''"
    by (simp add: substring_def doc_nested_def)
  ultimately show ?thesis using m
    by (simp add: extractElement_def RegExp_open RegExp_close match_i_open[simplified] plain_div
        eval_nat_numeral)
qed

lemma plain_a_b: "plain ''a''" "plain ''b''"
  by (simp_all add: plain_def in_ranges_def name_rs_def)

lemma exec_id_a:
  "exec True (idRx ''a'') (doc_nested @ tail) 0
     = Some (RMatch 0 ''<div id=\"a\">'' [None, Some ''div'', Some '' id=\"a\"''])"
  by (simp add: run_rules idRx_def doc_nested_def)

lemma exec_id_b:
  "exec True (idRx ''b'') (doc_nested @ tail) 0
     = Some (RMatch 12 ''<div id=\"b\">'' [None, Some ''div'', Some '' id=\"b\"''])"
  by (simp add: run_rules idRx_def doc_nested_def)

text \<open>
  C3. For \<^verbatim>\<open><div id="a"><div id="b">x</div>y</div>\<close>, followed by any text at all,
  getElementById with id a returns one span: the opening tag, the whole inner
  div, the y and the second closing tag. It does not stop at the first closing
  tag, and it does not run on into the text after the second, whatever that text
  is (more closing tags, say). For the id b the span is the inner div, which ends
  at the first closing tag.
\<close>

theorem C3_nested_span_is_whole:
  "getElementById (doc_nested @ tail) ''a''
     = Inr [''<div id=\"a\">'' @ ''<div id=\"b\">x</div>'' @ ''y'' @ ''</div>'']
   \<and> getElementById (doc_nested @ tail) ''b'' = Inr [''<div id=\"b\">x</div>'']"
proof -
  have "doc_nested \<noteq> []" by (simp add: doc_nested_def)
  then have "getElementById (doc_nested @ tail) ''a'' = Inr [doc_nested]"
    by (simp add: getElementById_def RegExp_id plain_a_b exec_id_a grp_def interp_def nested_outer)
  moreover have "getElementById (doc_nested @ tail) ''b'' = Inr [''<div id=\"b\">x</div>'']"
    by (simp add: getElementById_def RegExp_id plain_a_b exec_id_b grp_def interp_def nested_inner)
  ultimately show ?thesis by (simp add: doc_nested_def)
qed

section \<open>Text of the elements found by tag\<close>

text \<open>
  C4 (corrected). The claim fails for \<^verbatim>\<open>>\<close>: in \<^verbatim>\<open><p>a>b</p>\<close> the \<^verbatim>\<open>>\<close>
  between a and b is part of no match of \<^verbatim>\<open><[^>]*>\<close>, and getText of the
  element found by getByTag is \<^verbatim>\<open>a>b\<close>.
\<close>

theorem C4_gt_counterexample:
  "getByTag doc_gt ''p'' None = Inr [doc_gt]
   \<and> getText ([doc_gt] ! 0) = ''a>b''
   \<and> CHR ''>'' \<in> set (getText ([doc_gt] ! 0))"
  by code_simp

lemma plain_p: "plain ''p''"
  by (simp add: plain_def in_ranges_def name_rs_def)

text \<open>
  C4 as amended: getText removes every match of \<^verbatim>\<open><[^>]*>\<close> and trims the
  rest, and for every document getByTag for p returns, and the text of each
  element it returns has no \<^verbatim>\<open><\<close>.
\<close>

theorem C4_getText_no_lt:
  "getText str = trim (replace_g False anyTagRx [] str 0 0)
   \<and> (\<exists>es. getByTag html ''p'' None = Inr es
          \<and> (\<forall>i < length es. CHR ''<'' \<notin> set (getText (es ! i))))"
proof -
  have rx: "openRx ''p'' = Seq (Chr CHR ''<'') (seqs (map Chr ''p'' @ [Star notGt, Chr CHR ''>'']))"
    by (simp add: openRx_def)
  have pl: "\<forall>li m. exec True (openRx ''p'') html li = Some m \<longrightarrow> plain ((\<lambda>m. ''p'') m)"
    using plain_p by simp
  have "pushed html 0 []" by (simp add: pushed_def)
  from collect_returns[OF rx pl this]
  obtain ps li where ps: "collect (openRx ''p'') (\<lambda>m. ''p'') html 0 [] = Inr ps"
    and pu: "pushed html li ps" by blast
  have "\<forall>i < length (map snd ps). CHR ''<'' \<notin> set (getText (map snd ps ! i))"
  proof (intro allI impI)
    fix i assume i: "i < length (map snd ps)"
    then have "ps ! i \<in> set ps" by simp
    with pu have "span_at html (fst (ps ! i)) (snd (ps ! i))"
      by (auto simp: pushed_def list_all_iff split: prod.splits)
    then have "last (snd (ps ! i)) = CHR ''>''" by (simp add: span_at_def)
    from getText_no_lt[OF this] i show "CHR ''<'' \<notin> set (getText (map snd ps ! i))" by simp
  qed
  with ps show ?thesis
    by (simp add: getByTag_def finder_def RegExp_open plain_p elements_of_Inr getText_def)
qed

theorem C4_getText_no_lt_witness:
  "getByTag doc_bold ''p'' None = Inr [doc_bold]
   \<and> getText doc_bold = ''a c''
   \<and> CHR ''<'' \<notin> set (getText ([doc_bold] ! 0))"
proof -
  have ev: "getByTag doc_bold ''p'' None = Inr [doc_bold]" by code_simp
  have tx: "getText doc_bold = ''a c''" by code_simp
  from C4_getText_no_lt[of doc_bold doc_bold, THEN conjunct2] ev
  have "\<forall>i < length [doc_bold]. CHR ''<'' \<notin> set (getText ([doc_bold] ! i))" by simp
  then have "CHR ''<'' \<notin> set (getText ([doc_bold] ! 0))" by simp
  with ev tx show ?thesis by simp
qed

section \<open>The selector grammar\<close>

text \<open>
  The selector grammar \<^verbatim>\<open>^(tagname)?(#id)?(.classname)?$\<close> as pieces: an optional
  tag name of letters and digits, then an optional \<^verbatim>\<open>#\<close> with an id, then an
  optional \<^verbatim>\<open>.\<close> with a class name, id and class name of one or more letters,
  digits, \<^verbatim>\<open>_\<close> and \<^verbatim>\<open>-\<close>.
\<close>

definition piece :: "char \<Rightarrow> string option \<Rightarrow> string" where
  "piece c v = (case v of None \<Rightarrow> [] | Some w \<Rightarrow> c # w)"

definition selector_text :: "string \<Rightarrow> string option \<Rightarrow> string option \<Rightarrow> string" where
  "selector_text tag ident cls = tag @ piece CHR ''#'' ident @ piece CHR ''.'' cls"

definition name_ok :: "string option \<Rightarrow> bool" where
  "name_ok v = (case v of None \<Rightarrow> True | Some w \<Rightarrow> w \<noteq> [] \<and> list_all (in_ranges name_rs) w)"

definition in_grammar :: "string \<Rightarrow> string option \<Rightarrow> string option \<Rightarrow> bool" where
  "in_grammar tag ident cls = (list_all (in_ranges alnum_rs) tag \<and> name_ok ident \<and> name_ok cls)"

lemma alnum_eq: "alnum = Cls True alnum_rs"
  by (simp add: alnum_def alnum_rs_def)

lemma idch_eq: "idch = Cls True name_rs"
  by (simp add: idch_def name_rs_def)

lemma sign_outside:
  "\<not> cls_mem False alnum_rs CHR ''#''" "\<not> cls_mem False alnum_rs CHR ''.''"
  "\<not> cls_mem False name_rs CHR ''.''"
  by code_simp+

lemma piece_hd: "piece c v = [] \<or> hd (piece c v) = c"
  by (simp add: piece_def split: option.splits)

lemma start_selectorRx: "start selectorRx p xs = St p xs [None, None, None, None]"
  by (simp add: start_def selectorRx_def alnum_def idch_def numeral_eq_Suc)

lemma selector_parse:
  assumes "in_grammar tag ident cls"
  shows "smatch False selectorRx (selector_text tag ident cls)
      = Some (RMatch 0 (selector_text tag ident cls)
                [None, if tag = [] then None else Some tag,
                 map_option ((#) CHR ''#'') ident, map_option ((#) CHR ''.'') cls])"
proof -
  let ?idp = "piece CHR ''#'' ident" and ?clp = "piece CHR ''.'' cls"
  let ?sel = "selector_text tag ident cls"
  let ?g1 = "if tag = [] then None else Some tag"
  let ?g2 = "map_option ((#) CHR ''#'') ident" and ?g3 = "map_option ((#) CHR ''.'') cls"
  let ?O1 = "Opt (Grp 1 (Star alnum))"
  let ?O2 = "Opt (Grp 2 (Seq (Chr CHR ''#'') (Plus idch)))"
  let ?O3 = "Opt (Grp 3 (Seq (Chr CHR ''.'') (Plus idch)))"
  from assms have tag: "\<forall>x \<in> set tag. cls_mem False alnum_rs x"
    by (simp add: in_grammar_def list_all_iff cls_mem_def)
  have after_tag: "?idp @ ?clp = [] \<or> \<not> cls_mem False alnum_rs (hd (?idp @ ?clp))"
    using sign_outside by (auto simp: piece_def split: option.splits)
  have s1: "firstm False ?O1 (St None (tag @ ?idp @ ?clp) [None, None, None, None])
              (St (lastp None tag) (?idp @ ?clp) [None, ?g1, None, None])"
    using opt_star_piece[OF tag after_tag, of 1 None "[None, None, None, None]"]
    by (cases "tag = []") (simp_all add: alnum_eq lastp_def)
  have s2: "\<exists>q. firstm False ?O2 (St (lastp None tag) (?idp @ ?clp) [None, ?g1, None, None])
              (St q ?clp [None, ?g1, ?g2, None])"
  proof (cases ident)
    case None
    have "?clp = [] \<or> hd ?clp \<noteq> CHR ''#''" using piece_hd[of "CHR ''.''" cls] by auto
    from opt_piece_skip[OF this, of 2 "Plus idch" "lastp None tag" "[None, ?g1, None, None]"]
    have "firstm False ?O2 (St (lastp None tag) ([] @ ?clp) [None, ?g1, None, None])
            (St (lastp None tag) ?clp [None, ?g1, None, None])" by simp
    with None show ?thesis unfolding piece_def by (simp only: option.case option.map) blast
  next
    case (Some i)
    with assms have i: "i \<noteq> []" "\<forall>x \<in> set i. cls_mem False name_rs x"
      by (simp_all add: in_grammar_def name_ok_def list_all_iff cls_mem_def)
    have "?clp = [] \<or> \<not> cls_mem False name_rs (hd ?clp)"
      using sign_outside piece_hd[of "CHR ''.''" cls] by auto
    from opt_plus_piece[OF i this, of 2 "CHR ''#''" "lastp None tag" "[None, ?g1, None, None]"]
    have "firstm False ?O2 (St (lastp None tag) ((CHR ''#'' # i) @ ?clp) [None, ?g1, None, None])
            (St (lastp (lastp None tag) (CHR ''#'' # i)) ?clp [None, ?g1, Some (CHR ''#'' # i), None])"
      by (simp add: idch_eq numeral_2_eq_2)
    with Some show ?thesis unfolding piece_def by (simp only: option.case option.map) blast
  qed
  then obtain q where s2': "firstm False ?O2 (St (lastp None tag) (?idp @ ?clp) [None, ?g1, None, None])
              (St q ?clp [None, ?g1, ?g2, None])" by blast
  have s3: "\<exists>q'. firstm False ?O3 (St q ?clp [None, ?g1, ?g2, None]) (St q' [] [None, ?g1, ?g2, ?g3])"
  proof (cases cls)
    case None
    from opt_piece_skip[of "[]" "CHR ''.''" 3 "Plus idch" q "[None, ?g1, ?g2, None]"]
    have "firstm False ?O3 (St q [] [None, ?g1, ?g2, None]) (St q [] [None, ?g1, ?g2, None])"
      by simp
    with None show ?thesis unfolding piece_def by (simp only: option.case option.map) blast
  next
    case (Some c)
    with assms have c: "c \<noteq> []" "\<forall>x \<in> set c. cls_mem False name_rs x"
      by (simp_all add: in_grammar_def name_ok_def list_all_iff cls_mem_def)
    from opt_plus_piece[OF c, of "[]" 3 "CHR ''.''" q "[None, ?g1, ?g2, None]"]
    have "firstm False ?O3 (St q (CHR ''.'' # c) [None, ?g1, ?g2, None])
            (St (lastp q (CHR ''.'' # c)) [] [None, ?g1, ?g2, Some (CHR ''.'' # c)])"
      by (simp add: idch_eq numeral_3_eq_3)
    with Some show ?thesis unfolding piece_def by (simp only: option.case option.map) blast
  qed
  then obtain q' where s3': "firstm False ?O3 (St q ?clp [None, ?g1, ?g2, None])
      (St q' [] [None, ?g1, ?g2, ?g3])" by blast
  have "firstm False (Seq Eol Eps) (St q' [] [None, ?g1, ?g2, ?g3]) (St q' [] [None, ?g1, ?g2, ?g3])"
    by (rule first_Seq[OF first_Eol first_Eps]) simp
  from first_Seq[OF s3' this]
  have "firstm False (Seq ?O3 (Seq Eol Eps)) (St q ?clp [None, ?g1, ?g2, None])
      (St q' [] [None, ?g1, ?g2, ?g3])" .
  from first_Seq[OF s2' this]
  have "firstm False (Seq ?O2 (Seq ?O3 (Seq Eol Eps)))
      (St (lastp None tag) (?idp @ ?clp) [None, ?g1, None, None]) (St q' [] [None, ?g1, ?g2, ?g3])" .
  from first_Seq[OF s1 this]
  have "firstm False (Seq ?O1 (Seq ?O2 (Seq ?O3 (Seq Eol Eps))))
      (St None (tag @ ?idp @ ?clp) [None, None, None, None]) (St q' [] [None, ?g1, ?g2, ?g3])" .
  moreover have "firstm False Bol (St None (tag @ ?idp @ ?clp) [None, None, None, None])
      (St None (tag @ ?idp @ ?clp) [None, None, None, None])"
    by (intro first_Bol) simp
  ultimately have "firstm False selectorRx (start selectorRx None ?sel) (St q' [] [None, ?g1, ?g2, ?g3])"
    unfolding selectorRx_def seqs.simps start_selectorRx[unfolded selectorRx_def seqs.simps]
      selector_text_def
    by (rule first_Seq[rotated])
  then obtain ts where "ms False selectorRx (start selectorRx None ?sel) = St q' [] [None, ?g1, ?g2, ?g3] # ts"
    by (auto simp: firstm_def)
  from scan_here[OF this, of 0]
  show ?thesis by (simp add: smatch_def exec_def char_before_def)
qed


text \<open>Conversely, every selector that the pattern matches is made of such pieces.\<close>

lemma opt_piece_parts:
  assumes "u \<in> set (ms False (Opt (Grp n (Seq (Chr c) (Plus (Cls True rs))))) s)"
  shows "\<exists>v. rest s = piece c v @ rest u
           \<and> (case v of None \<Rightarrow> True | Some w \<Rightarrow> w \<noteq> [] \<and> list_all (in_ranges rs) w)"
proof (cases "u = s")
  case True
  then have "rest s = piece c None @ rest u" by (simp add: piece_def)
  then show ?thesis by (intro exI[of _ None]) simp
next
  case False
  let ?r = "Seq (Chr c) (Plus (Cls True rs))"
  from False assms obtain v' where v': "v' \<in> set (ms False ?r (clear (Grp n ?r) s))"
    and u: "u = capture n (clear (Grp n ?r) s) v'"
    by (auto simp: ms.simps(7,8))
  from v' obtain a b where a: "a \<in> set (ms False (Chr c) (clear (Grp n ?r) s))"
    and b: "b \<in> set (ms False (Cls True rs) (clear (Cls True rs) a))"
    and s': "v' \<in> set (ms False (Star (Cls True rs)) b)"
    by (auto simp: ms.simps(4,6))
  from a obtain xs where xs: "rest s = c # xs" "rest a = xs"
    by (cases "rest s") (auto simp: ms.simps(2) rest_clear canon_def split: if_splits)
  from b obtain y ys where ys: "rest a = y # ys" "cls_mem False rs y" "rest b = ys"
    by (cases "rest a") (auto simp: ms.simps(3) rest_clear split: if_splits)
  from ms_run[OF s'] obtain w where w: "rest b = w @ rest v'" "\<forall>x \<in> set w. cls_mem False rs x"
    by auto
  from xs ys w u have "rest s = piece c (Some (y # w)) @ rest u"
    by (simp add: piece_def capture_def)
  moreover from ys w have "y # w \<noteq> [] \<and> list_all (in_ranges rs) (y # w)"
    by (simp add: list_all_iff cls_mem_def)
  ultimately show ?thesis by (intro exI[of _ "Some (y # w)"]) simp
qed

lemma selector_pieces:
  assumes "smatch False selectorRx selector = Some m"
  shows "\<exists>tag ident cls. in_grammar tag ident cls \<and> selector = selector_text tag ident cls"
proof -
  let ?O1 = "Opt (Grp 1 (Star (Cls True alnum_rs)))"
  let ?O2 = "Opt (Grp 2 (Seq (Chr CHR ''#'') (Plus (Cls True name_rs))))"
  let ?O3 = "Opt (Grp 3 (Seq (Chr CHR ''.'') (Plus (Cls True name_rs))))"
  let ?body = "Seq ?O1 (Seq ?O2 (Seq ?O3 (Seq Eol Eps)))"
  have rx: "selectorRx = Seq Bol ?body"
    by (simp add: selectorRx_def alnum_eq idch_eq)
  from smatch_Bol[OF assms[unfolded rx]] obtain t ts
    where "ms False ?body (start ?body None selector) = t # ts" by blast
  then have "t \<in> set (ms False ?body (start ?body None selector))" by simp
  then obtain u1 u2 u3 where u1: "u1 \<in> set (ms False ?O1 (start ?body None selector))"
    and u2: "u2 \<in> set (ms False ?O2 u1)" and u3: "u3 \<in> set (ms False ?O3 u2)"
    and e: "t \<in> set (ms False (Seq Eol Eps) u3)"
    by (auto simp: ms.simps(4))
  from e have end3: "rest u3 = []"
    by (cases "rest u3") (auto simp: ms.simps(1,4,11))
  from ms_run[OF u1] obtain tag where tag: "selector = tag @ rest u1"
    "\<forall>x \<in> set tag. cls_mem False alnum_rs x" by (auto simp: rest_start)
  from opt_piece_parts[OF u2] obtain ident where ident: "rest u1 = piece CHR ''#'' ident @ rest u2"
    "case ident of None \<Rightarrow> True | Some w \<Rightarrow> w \<noteq> [] \<and> list_all (in_ranges name_rs) w" by blast
  from opt_piece_parts[OF u3] obtain cls where cls: "rest u2 = piece CHR ''.'' cls @ rest u3"
    "case cls of None \<Rightarrow> True | Some w \<Rightarrow> w \<noteq> [] \<and> list_all (in_ranges name_rs) w" by blast
  from tag ident cls end3 have "selector = selector_text tag ident cls"
    by (simp add: selector_text_def)
  moreover from tag ident cls have "in_grammar tag ident cls"
    by (simp add: in_grammar_def name_ok_def list_all_iff cls_mem_def)
  ultimately show ?thesis by blast
qed

lemma ms_seqs_Eol:
  "t \<in> set (ms ic (seqs (rs @ [Eol])) s) \<Longrightarrow> rest t = []"
proof (induction rs arbitrary: s)
  case Nil
  then obtain u where "u \<in> set (ms ic Eol s)" "t \<in> set (ms ic Eps u)"
    by (auto simp: ms.simps(4))
  then show ?case by (cases "rest s") (auto simp: ms.simps(1,11))
next
  case (Cons r rs)
  then obtain u where "t \<in> set (ms ic (seqs (rs @ [Eol])) u)"
    by (auto simp: ms.simps(4))
  from Cons.IH[OF this] show ?case .
qed

text \<open>A selector that matches the pattern consists of code units that the classes
  and literals of the pattern accept.\<close>

lemma selector_chars:
  assumes "smatch False selectorRx selector = Some m"
  shows "\<forall>x \<in> set selector. takes False selectorRx x"
proof -
  let ?body = "seqs ([Opt (Grp 1 (Star alnum)), Opt (Grp 2 (Seq (Chr CHR ''#'') (Plus idch))),
                      Opt (Grp 3 (Seq (Chr CHR ''.'') (Plus idch)))] @ [Eol])"
  have rx: "selectorRx = Seq Bol ?body" by (simp add: selectorRx_def)
  from smatch_Bol[OF assms[unfolded rx]] obtain t ts
    where "ms False ?body (start ?body None selector) = t # ts" by blast
  then have t: "t \<in> set (ms False ?body (start ?body None selector))" by simp
  from ms_seqs_Eol[OF t] have e: "rest t = []" .
  from ms_run[OF t] e have "\<forall>x \<in> set selector. takes False ?body x"
    by (auto simp: rest_start)
  then show ?thesis unfolding rx by simp
qed

lemma combinator_not_taken:
  "\<not> takes False selectorRx CHR '' ''" "\<not> takes False selectorRx CHR ''>''"
  "\<not> takes False selectorRx CHR ''+''" "\<not> takes False selectorRx CHR ''~''"
  by code_simp+

section \<open>Selectors outside the grammar\<close>

text \<open>
  A reader of selectors that is written from the grammar and not from the
  pattern of the code: the longest run of letters and digits is the tag name,
  a \<^verbatim>\<open>#\<close> begins the id and a \<^verbatim>\<open>.\<close> the class name, each the longest run of
  letters, digits, \<^verbatim>\<open>_\<close> and \<^verbatim>\<open>-\<close>, and nothing may be left over.
\<close>

definition after_sign :: "char \<Rightarrow> string \<Rightarrow> string option \<times> string" where
  "after_sign c s =
     (case s of
        [] \<Rightarrow> (None, [])
      | x # xs \<Rightarrow> if x = c then (Some (takeWhile (in_ranges name_rs) xs), dropWhile (in_ranges name_rs) xs)
                  else (None, s))"

definition pieces_of :: "string \<Rightarrow> string \<times> string option \<times> string option \<times> string" where
  "pieces_of selector =
     (let tag = takeWhile (in_ranges alnum_rs) selector;
          (ident, s2) = after_sign CHR ''#'' (dropWhile (in_ranges alnum_rs) selector);
          (cls, left) = after_sign CHR ''.'' s2
      in (tag, ident, cls, left))"

text \<open>A selector of the grammar, for a given notion of tag name: the tag name may be
  missing, an id and a class name that are there are not empty, and the pieces
  are the whole selector.\<close>

definition selector_in :: "(string \<Rightarrow> bool) \<Rightarrow> string \<Rightarrow> bool" where
  "selector_in tag_name selector =
     (case pieces_of selector of
        (tag, ident, cls, left) \<Rightarrow>
          left = [] \<and> (tag = [] \<or> tag_name tag) \<and> name_ok ident \<and> name_ok cls)"

text \<open>The tag name of the specification, \<^verbatim>\<open>[A-Za-z][A-Za-z0-9]*\<close>, and the tag name
  that the selector pattern of the code reads, \<^verbatim>\<open>[a-zA-Z0-9]*\<close>.\<close>

definition spec_tag_name :: "string \<Rightarrow> bool" where
  "spec_tag_name t =
     (case t of
        [] \<Rightarrow> False
      | x # xs \<Rightarrow> in_ranges [(CHR ''A'', CHR ''Z''), (CHR ''a'', CHR ''z'')] x
                  \<and> list_all (in_ranges alnum_rs) xs)"

definition digits_tag_name :: "string \<Rightarrow> bool" where
  "digits_tag_name t = list_all (in_ranges alnum_rs) t"

lemma takeWhile_run:
  "\<forall>x \<in> set w. P x \<Longrightarrow> r = [] \<or> \<not> P (hd r) \<Longrightarrow> takeWhile P (w @ r) = w"
  by (cases r) simp_all

lemma dropWhile_run:
  "\<forall>x \<in> set w. P x \<Longrightarrow> r = [] \<or> \<not> P (hd r) \<Longrightarrow> dropWhile P (w @ r) = r"
  by (cases r) simp_all

lemma sign_not_name:
  "\<not> in_ranges alnum_rs CHR ''#''" "\<not> in_ranges alnum_rs CHR ''.''"
  "\<not> in_ranges name_rs CHR ''#''" "\<not> in_ranges name_rs CHR ''.''"
  by (simp_all add: in_ranges_def alnum_rs_def name_rs_def)

lemma after_sign_piece:
  assumes "case v of None \<Rightarrow> True | Some w \<Rightarrow> list_all (in_ranges name_rs) w"
    and "r = [] \<or> (hd r \<noteq> c \<and> \<not> in_ranges name_rs (hd r))"
  shows "after_sign c (piece c v @ r) = (v, r)"
proof (cases v)
  case None
  with assms(2) show ?thesis by (cases r) (auto simp: after_sign_def piece_def)
next
  case (Some w)
  with assms have "\<forall>x \<in> set w. in_ranges name_rs x" "r = [] \<or> \<not> in_ranges name_rs (hd r)"
    by (auto simp: list_all_iff)
  from takeWhile_run[OF this] dropWhile_run[OF this] Some show ?thesis
    by (simp add: after_sign_def piece_def)
qed

lemma pieces_of_text:
  assumes "in_grammar tag ident cls"
  shows "pieces_of (selector_text tag ident cls) = (tag, ident, cls, [])"
proof -
  let ?r = "piece CHR ''#'' ident @ piece CHR ''.'' cls"
  from assms have t: "\<forall>x \<in> set tag. in_ranges alnum_rs x"
    and i: "case ident of None \<Rightarrow> True | Some w \<Rightarrow> list_all (in_ranges name_rs) w"
    and c: "case cls of None \<Rightarrow> True | Some w \<Rightarrow> list_all (in_ranges name_rs) w"
    by (auto simp: in_grammar_def name_ok_def list_all_iff split: option.splits)
  have r: "?r = [] \<or> \<not> in_ranges alnum_rs (hd ?r)"
    using sign_not_name by (auto simp: piece_def split: option.splits)
  have "piece CHR ''.'' cls = []
      \<or> (hd (piece CHR ''.'' cls) \<noteq> CHR ''#'' \<and> \<not> in_ranges name_rs (hd (piece CHR ''.'' cls)))"
    using sign_not_name by (auto simp: piece_def split: option.splits)
  from after_sign_piece[OF i this]
  have a1: "after_sign CHR ''#'' ?r = (ident, piece CHR ''.'' cls)" .
  from after_sign_piece[OF c, of "[]" "CHR ''.''"]
  have a2: "after_sign CHR ''.'' (piece CHR ''.'' cls) = (cls, [])" by simp
  from takeWhile_run[OF t r] dropWhile_run[OF t r] a1 a2 show ?thesis
    by (simp add: pieces_of_def selector_text_def)
qed

lemma after_sign_parts:
  assumes "after_sign c s = (v, r)"
  shows "s = piece c v @ r \<and> (case v of None \<Rightarrow> True | Some w \<Rightarrow> list_all (in_ranges name_rs) w)"
proof (cases s)
  case Nil
  with assms show ?thesis by (auto simp: after_sign_def piece_def)
next
  case (Cons x xs)
  show ?thesis
  proof (cases "x = c")
    case True
    with Cons assms have "v = Some (takeWhile (in_ranges name_rs) xs)"
      "r = dropWhile (in_ranges name_rs) xs" by (auto simp: after_sign_def)
    with Cons True show ?thesis
      by (auto simp: piece_def list_all_iff dest: set_takeWhileD)
  next
    case False
    with Cons assms show ?thesis by (auto simp: after_sign_def piece_def)
  qed
qed

text \<open>The reader accepts the selectors that are made of pieces of the grammar, and
  no others.\<close>

lemma selector_in_pieces:
  "selector_in digits_tag_name selector
     = (\<exists>tag ident cls. in_grammar tag ident cls \<and> selector = selector_text tag ident cls)"
proof
  assume a: "selector_in digits_tag_name selector"
  obtain ident s2 where i: "after_sign CHR ''#'' (dropWhile (in_ranges alnum_rs) selector) = (ident, s2)"
    by (cases "after_sign CHR ''#'' (dropWhile (in_ranges alnum_rs) selector)") auto
  obtain cls left where c: "after_sign CHR ''.'' s2 = (cls, left)"
    by (cases "after_sign CHR ''.'' s2") auto
  let ?tag = "takeWhile (in_ranges alnum_rs) selector"
  from i c have p: "pieces_of selector = (?tag, ident, cls, left)"
    by (simp add: pieces_of_def)
  with a have ok: "left = []" "name_ok ident" "name_ok cls" by (simp_all add: selector_in_def)
  from after_sign_parts[OF i] after_sign_parts[OF c] ok
  have "selector = selector_text ?tag ident cls"
    by (simp add: selector_text_def)
       (metis takeWhile_dropWhile_id)
  moreover have "in_grammar ?tag ident cls"
    using ok by (auto simp: in_grammar_def list_all_iff dest: set_takeWhileD)
  ultimately show "\<exists>tag ident cls. in_grammar tag ident cls \<and> selector = selector_text tag ident cls"
    by blast
next
  assume "\<exists>tag ident cls. in_grammar tag ident cls \<and> selector = selector_text tag ident cls"
  then obtain tag ident cls where g: "in_grammar tag ident cls"
    and s: "selector = selector_text tag ident cls" by blast
  from pieces_of_text[OF g] g s show "selector_in digits_tag_name selector"
    by (simp add: selector_in_def in_grammar_def digits_tag_name_def)
qed

lemma outside_no_match:
  assumes "\<not> selector_in digits_tag_name selector"
  shows "smatch False selectorRx selector = None"
proof (cases "smatch False selectorRx selector")
  case None
  then show ?thesis .
next
  case (Some m)
  from selector_pieces[OF Some] assms show ?thesis by (simp add: selector_in_pieces)
qed

lemma class_before_id_outside: "\<not> selector_in tag_name (CHR ''.'' # cn @ CHR ''#'' # idn)"
proof -
  have "dropWhile (in_ranges name_rs) (cn @ CHR ''#'' # idn) \<noteq> []"
    using sign_not_name(3) by simp
  then show ?thesis
    using sign_not_name(2)
    by (simp add: selector_in_def pieces_of_def after_sign_def)
qed

text \<open>
  C5 (corrected). The claim fails for a tag name that begins with a digit: the
  tag name of the specification begins with a letter, so the selector
  \<^verbatim>\<open>9lives\<close> is outside the grammar, but the pattern of querySelectorAll reads
  \<^verbatim>\<open>[a-zA-Z0-9]*\<close> as the tag and the element \<^verbatim>\<open><9lives>x</9lives>\<close> is returned.
\<close>

theorem C5_digit_tag_counterexample:
  "\<not> selector_in spec_tag_name ''9lives''
   \<and> querySelectorAll doc_digit ''9lives'' = Inr [doc_digit]"
  by code_simp

text \<open>
  C5 as amended: with a tag name of letters and digits in any order, every
  selector outside the grammar gives the empty list and no error, for every
  document: the selectors that the reader does not accept, which are those not
  made of pieces of the grammar; among them every selector with a space or
  another combinator sign, and every selector with a class before an id. The
  empty selector gives the empty list as well.
\<close>

theorem C5_selector_outside_grammar:
  "(\<not> selector_in digits_tag_name selector \<longrightarrow> querySelectorAll html selector = Inr [])
   \<and> (selector_in digits_tag_name selector
        = (\<exists>tag ident cls. in_grammar tag ident cls \<and> selector = selector_text tag ident cls))
   \<and> (CHR '' '' \<in> set selector \<or> CHR ''>'' \<in> set selector \<or> CHR ''+'' \<in> set selector
        \<or> CHR ''~'' \<in> set selector \<longrightarrow>
          \<not> selector_in digits_tag_name selector \<and> querySelectorAll html selector = Inr [])
   \<and> \<not> selector_in digits_tag_name (CHR ''.'' # cn @ CHR ''#'' # idn)
   \<and> querySelectorAll html (CHR ''.'' # cn @ CHR ''#'' # idn) = Inr []
   \<and> querySelectorAll html [] = Inr []"
proof -
  have none: "querySelectorAll html s = Inr []" if "\<not> selector_in digits_tag_name s" for s
    using outside_no_match[OF that] by (simp add: querySelectorAll_def)
  have comb: "CHR '' '' \<in> set selector \<or> CHR ''>'' \<in> set selector \<or> CHR ''+'' \<in> set selector
        \<or> CHR ''~'' \<in> set selector \<longrightarrow>
          \<not> selector_in digits_tag_name selector \<and> querySelectorAll html selector = Inr []"
  proof
    assume c: "CHR '' '' \<in> set selector \<or> CHR ''>'' \<in> set selector \<or> CHR ''+'' \<in> set selector
        \<or> CHR ''~'' \<in> set selector"
    have "\<not> selector_in digits_tag_name selector"
    proof
      assume "selector_in digits_tag_name selector"
      then obtain tag ident cls where g: "in_grammar tag ident cls"
        and s: "selector = selector_text tag ident cls" by (auto simp: selector_in_pieces)
      from selector_parse[OF g] s obtain m where "smatch False selectorRx selector = Some m"
        by simp
      from selector_chars[OF this] c combinator_not_taken show False by blast
    qed
    with none show "\<not> selector_in digits_tag_name selector \<and> querySelectorAll html selector = Inr []"
      by simp
  qed
  have "smatch False selectorRx [] = Some (RMatch 0 [] [None, None, None, None])" by code_simp
  then have empty: "querySelectorAll html [] = Inr []"
    by (simp add: querySelectorAll_def grp_def truthy_def)
  from none comb empty class_before_id_outside[of digits_tag_name cn idn] selector_in_pieces[of selector]
  show ?thesis by blast
qed

theorem C5_selector_outside_grammar_witness:
  "\<not> selector_in digits_tag_name ''div p''
   \<and> CHR '' '' \<in> set ''div p''
   \<and> querySelectorAll doc_both ''div p'' = Inr []
   \<and> querySelectorAll doc_both ''.c#i'' = Inr []
   \<and> selector_in digits_tag_name ''#i.c''
   \<and> querySelectorAll doc_both ''#i.c'' = Inr [doc_both]"
proof -
  have n: "\<not> selector_in digits_tag_name ''div p''" by code_simp
  have s: "CHR '' '' \<in> set ''div p''" by simp
  have i: "selector_in digits_tag_name ''#i.c''" by code_simp
  have b: "querySelectorAll doc_both ''#i.c'' = Inr [doc_both]" by code_simp
  from C5_selector_outside_grammar[of "''div p''" doc_both "''c''" "''i''"] n s i b
  show ?thesis by simp
qed

section \<open>Selector dispatch\<close>

text \<open>The dispatch in the words of the specification: id, then tag and class, then
  class only, then tag only, then the empty result.\<close>

definition dispatch :: "string \<Rightarrow> string \<Rightarrow> string option \<Rightarrow> string option \<Rightarrow> error + string list" where
  "dispatch html tag ident cls =
     (case ident of
        Some i \<Rightarrow> getElementById html i
      | None \<Rightarrow>
          (case cls of
             Some c \<Rightarrow> if tag \<noteq> [] then getByClass html c (Some tag) else getByClass html c None
           | None \<Rightarrow> if tag \<noteq> [] then getByTag html tag None else Inr []))"

definition first_or_absent :: "error + string list \<Rightarrow> error + string option" where
  "first_or_absent res =
     (case res of Inl e \<Rightarrow> Inl e | Inr [] \<Rightarrow> Inr None | Inr (x # xs) \<Rightarrow> Inr (Some x))"

text \<open>
  C6. Every selector that the pattern matches is the text of pieces of the
  grammar, and for every selector of the grammar querySelectorAll is the
  dispatch of the specification on its pieces: with an id it is getElementById
  for the id, whatever tag and class come with it; otherwise with tag and class
  it is getByClass for the class and the tag, with a class only getByClass for
  the class, with a tag only getByTag, and with no piece the empty result. And
  querySelector, for every selector, is the first element of querySelectorAll or
  absent.
\<close>

theorem C6_selector_dispatch:
  assumes "in_grammar tag ident cls"
  shows "querySelectorAll html (selector_text tag ident cls) = dispatch html tag ident cls
         \<and> querySelector html selector = first_or_absent (querySelectorAll html selector)
         \<and> (smatch False selectorRx selector \<noteq> None \<longrightarrow>
              (\<exists>t i c. in_grammar t i c \<and> selector = selector_text t i c))"
proof -
  have one: "querySelector html selector = first_or_absent (querySelectorAll html selector)"
    by (cases "querySelectorAll html selector")
       (auto simp: querySelector_def first_or_absent_def nth_Cons split: list.splits)
  from assms have i: "ident \<noteq> Some []" and c: "cls \<noteq> Some []"
    by (auto simp: in_grammar_def name_ok_def)
  have "querySelectorAll html (selector_text tag ident cls) = dispatch html tag ident cls"
    unfolding querySelectorAll_def selector_parse[OF assms]
    using i c
    by (cases ident; cases cls)
       (simp_all add: grp_def truthy_def interp_def dispatch_def Let_def)
  moreover have "smatch False selectorRx selector \<noteq> None \<longrightarrow>
      (\<exists>t i c. in_grammar t i c \<and> selector = selector_text t i c)"
    using selector_pieces by blast
  ultimately show ?thesis using one by simp
qed

theorem C6_selector_dispatch_witness:
  "in_grammar ''div'' (Some ''i'') (Some ''c'')
   \<and> selector_text ''div'' (Some ''i'') (Some ''c'') = ''div#i.c''
   \<and> smatch False selectorRx ''div#i.c'' \<noteq> None
   \<and> querySelectorAll doc_both ''div#i.c'' = getElementById doc_both ''i''
   \<and> querySelectorAll doc_both ''div#i.c'' = Inr [doc_both]
   \<and> querySelector doc_both ''div#i.c'' = Inr (Some doc_both)"
proof -
  have g: "in_grammar ''div'' (Some ''i'') (Some ''c'')" by code_simp
  have t: "selector_text ''div'' (Some ''i'') (Some ''c'') = ''div#i.c''"
    by (simp add: selector_text_def piece_def)
  have m: "smatch False selectorRx ''div#i.c'' \<noteq> None" by code_simp
  have e: "getElementById doc_both ''i'' = Inr [doc_both]" by code_simp
  from C6_selector_dispatch[OF g, of doc_both "''div#i.c''"] t e m
  show ?thesis using g by (simp add: dispatch_def first_or_absent_def)
qed

section \<open>A longer tag name\<close>

lemma match_then_search:
  assumes "smatch ic (Seq Bol r) str = Some m"
  shows "search ic r str = Some 0"
proof -
  from smatch_Bol[OF assms] obtain t ts where "ms ic r (start r None str) = t # ts" by blast
  from scan_here[OF this, of 0] show ?thesis
    by (simp add: search_def exec_def char_before_def)
qed

text \<open>
  C7. For a plain tag name, the opening patterns ask for no delimiter after the
  name: \<^verbatim>\<open>^<name[^>]*>\<close> accepts \<^verbatim>\<open><\<close>, the name, any run of code units other than
  \<^verbatim>\<open>>\<close>, and \<^verbatim>\<open>>\<close>, so a tag whose name only begins with the name asked for, and
  the search for \<^verbatim>\<open><name[^>]*>\<close> finds such a tag where it stands. In
  \<^verbatim>\<open><divider>a</div>\<close> the opening tag matched for the name div is
  \<^verbatim>\<open><divider>\<close>, and extractElement returns the span from it to \<^verbatim>\<open></div>\<close>.
\<close>

theorem C7_longer_name_is_accepted:
  "(plain tagName \<and> CHR ''>'' \<notin> set more \<longrightarrow>
      match_i (''^'' @ openSrc tagName) (CHR ''<'' # tagName @ more @ CHR ''>'' # tail)
        = Inr (Some (RMatch 0 (CHR ''<'' # tagName @ more @ [CHR ''>'']) [None]))
      \<and> search_i (openSrc tagName) (CHR ''<'' # tagName @ more @ CHR ''>'' # tail) = Inr (Some 0))
   \<and> match_i (''^'' @ openSrc ''div'') doc_divider = Inr (Some (RMatch 0 ''<divider>'' [None]))
   \<and> extractElement doc_divider 0 ''div'' = Inr (Some (''<divider>'' @ ''a'' @ ''</div>''))"
proof -
  have "match_i (''^'' @ openSrc ''div'') doc_divider = Inr (Some (RMatch 0 ''<divider>'' [None]))"
    by code_simp
  moreover have "extractElement doc_divider 0 ''div'' = Inr (Some (''<divider>'' @ ''a'' @ ''</div>''))"
    by code_simp
  moreover have "match_i (''^'' @ openSrc tagName) (CHR ''<'' # tagName @ more @ CHR ''>'' # tail)
        = Inr (Some (RMatch 0 (CHR ''<'' # tagName @ more @ [CHR ''>'']) [None]))
      \<and> search_i (openSrc tagName) (CHR ''<'' # tagName @ more @ CHR ''>'' # tail) = Inr (Some 0)"
    if "plain tagName" "CHR ''>'' \<notin> set more"
    using match_i_open[OF that(1)] search_i_open[OF that(1)] openRx_accepts[OF that(2)]
      match_then_search[OF openRx_accepts[OF that(2)]]
    by simp
  ultimately show ?thesis by blast
qed

theorem C7_longer_name_is_accepted_witness:
  "plain ''div'' \<and> CHR ''>'' \<notin> set ''ider''
   \<and> match_i (''^'' @ openSrc ''div'') ''<divider>a</div>'' = Inr (Some (RMatch 0 ''<divider>'' [None]))
   \<and> search_i (openSrc ''div'') ''<divider>a</div>'' = Inr (Some 0)"
proof -
  have "CHR ''>'' \<notin> set ''ider''" by simp
  with C7_longer_name_is_accepted[of "''div''" "''ider''" "''a</div>''"] plain_div
  show ?thesis by simp
qed

section \<open>getByTag with a class name\<close>

text \<open>
  C8 (corrected). The claim fails for the empty class name, which is given but
  false in the test \<^verbatim>\<open>if (className)\<close>: getByTag then scans for the tag, while
  getByClass asks for a class attribute.
\<close>

theorem C8_empty_class_counterexample:
  "getByTag doc_plain ''div'' (Some []) = Inr [doc_plain]
   \<and> getByClass doc_plain [] (Some ''div'') = Inr []"
  by code_simp

text \<open>
  C8 as amended: for every document, tag name and class name that is given and
  not empty, getByTag returns what getByClass returns.
\<close>

theorem C8_getByTag_delegates:
  "className \<noteq> [] \<Longrightarrow> getByTag html tag (Some className) = getByClass html className (Some tag)"
  by (simp add: getByTag_def)

theorem C8_getByTag_delegates_witness:
  "''foo'' \<noteq> [] \<and> getByTag doc_upper ''div'' (Some ''foo'') = getByClass doc_upper ''foo'' (Some ''div'')
   \<and> getByTag doc_upper ''div'' (Some ''foo'') = Inr [doc_upper]"
proof -
  have ne: "''foo'' \<noteq> []" by simp
  have "getByClass doc_upper ''foo'' (Some ''div'') = Inr [doc_upper]" by code_simp
  with C8_getByTag_delegates[OF ne, of doc_upper "''div''"] ne show ?thesis by simp
qed

section \<open>Document order\<close>

lemma plain_item: "plain ''item''"
  by (simp add: plain_def in_ranges_def name_rs_def)

lemma RegExp_class:
  assumes "plain className" "case tag of None \<Rightarrow> True | Some t \<Rightarrow> plain t"
  shows "RegExp (classSrc className (tagSrc tag)) = Inr (classRx className tag)"
  using assms
  by (cases tag) (simp_all add: tagSrc_def RegExp_defaultTag_class RegExp_tag_class)

text \<open>
  C9. \<open>getByClassAt\<close> is the loop of getByClass with the offset startPos kept beside
  each element. Whatever the class name and the tag are, when the call returns,
  the elements are listed by increasing start offset and each element is the
  text of the document from its offset on. For a plain class name, with no tag
  or a plain tag name, the call returns, for every document. For three elements
  of class item the result is the three in the order of the source.
\<close>

theorem C9_getByClass_document_order:
  "(\<forall>ps. getByClassAt html className tag = Inr ps \<longrightarrow>
       getByClass html className tag = Inr (map snd ps)
       \<and> sorted_wrt (<) (map fst ps)
       \<and> list_all (\<lambda>(p, el). el \<noteq> [] \<and> take (length el) (drop p html) = el) ps)
   \<and> (plain className \<and> (case tag of None \<Rightarrow> True | Some t \<Rightarrow> plain t) \<longrightarrow>
         (\<exists>ps. getByClassAt html className tag = Inr ps))
   \<and> getByClassAt doc_items ''item'' None
       = Inr [(0, ''<li class=\"item\">X</li>''), (23, ''<li class=\"item\">Y</li>''),
              (46, ''<li class=\"item\">Z</li>'')]
   \<and> getByClass doc_items ''item'' None
       = Inr [''<li class=\"item\">X</li>'', ''<li class=\"item\">Y</li>'', ''<li class=\"item\">Z</li>'']"
proof -
  have order: "getByClass html className tag = Inr (map snd ps)
       \<and> sorted_wrt (<) (map fst ps)
       \<and> list_all (\<lambda>(p, el). el \<noteq> [] \<and> take (length el) (drop p html) = el) ps"
    if a: "getByClassAt html className tag = Inr ps" for ps
  proof -
    from a obtain regex
      where "collect regex (\<lambda>m. interp (grp m 1)) html 0 [] = Inr ps"
      by (auto simp: getByClassAt_def finder_def split: sum.splits)
    moreover have "placed html 0 []" by (simp add: placed_def)
    ultimately obtain li where "placed html li ps" using collect_placed by blast
    then have "sorted_wrt (<) (map fst ps)"
      "list_all (\<lambda>(p, el). el \<noteq> [] \<and> take (length el) (drop p html) = el) ps"
      by (auto simp: placed_def list_all_iff)
    with a show ?thesis by (simp add: getByClass_def elements_of_Inr)
  qed
  have returns: "\<exists>ps. getByClassAt html className tag = Inr ps"
    if c: "plain className" and t: "case tag of None \<Rightarrow> True | Some t \<Rightarrow> plain t"
  proof -
    have rx: "classRx className tag
        = Seq (Chr CHR ''<'') (seqs [Grp 1 (tagRx tag),
            Grp 2 (seqs ([Star notGt, WordB] @ map Chr ''class=\"'' @ [Star notQuote, WordB]
                        @ map Chr className @ [WordB, Star notQuote, Chr CHR 0x22, Star notGt])),
            Chr CHR ''>''])"
      by (simp add: classRx_def)
    have pl: "\<forall>li m. exec True (classRx className tag) html li = Some m
        \<longrightarrow> plain ((\<lambda>m. interp (grp m 1)) m)"
      using class_tag_plain[OF c t] by blast
    have "pushed html 0 []" by (simp add: pushed_def)
    from collect_returns[OF rx pl this] obtain ps
      where "collect (classRx className tag) (\<lambda>m. interp (grp m 1)) html 0 [] = Inr ps" by blast
    then show ?thesis
      by (simp add: getByClassAt_def finder_def RegExp_class[OF c t])
  qed
  have at: "getByClassAt doc_items ''item'' None
       = Inr [(0, ''<li class=\"item\">X</li>''), (23, ''<li class=\"item\">Y</li>''),
              (46, ''<li class=\"item\">Z</li>'')]"
    by code_simp
  then have "getByClass doc_items ''item'' None
       = Inr [''<li class=\"item\">X</li>'', ''<li class=\"item\">Y</li>'', ''<li class=\"item\">Z</li>'']"
    by (simp add: getByClass_def elements_of_Inr)
  with order returns at show ?thesis by blast
qed

theorem C9_getByClass_document_order_witness:
  "plain ''item''
   \<and> getByClassAt doc_items ''item'' None
       = Inr [(0, ''<li class=\"item\">X</li>''), (23, ''<li class=\"item\">Y</li>''),
              (46, ''<li class=\"item\">Z</li>'')]
   \<and> sorted_wrt (<) (map fst [(0::nat, ''<li class=\"item\">X</li>''), (23, ''<li class=\"item\">Y</li>''),
              (46, ''<li class=\"item\">Z</li>'')])
   \<and> take (length ''<li class=\"item\">Y</li>'') (drop 23 doc_items) = ''<li class=\"item\">Y</li>''"
proof -
  let ?ps = "[(0::nat, ''<li class=\"item\">X</li>''), (23, ''<li class=\"item\">Y</li>''),
              (46, ''<li class=\"item\">Z</li>'')]"
  from C9_getByClass_document_order[of doc_items "''item''" None]
  have at: "getByClassAt doc_items ''item'' None = Inr ?ps"
    and all: "\<forall>ps. getByClassAt doc_items ''item'' None = Inr ps \<longrightarrow>
       getByClass doc_items ''item'' None = Inr (map snd ps)
       \<and> sorted_wrt (<) (map fst ps)
       \<and> list_all (\<lambda>(p, el). el \<noteq> [] \<and> take (length el) (drop p doc_items) = el) ps"
    and ex: "plain ''item'' \<and> (case None :: string option of None \<Rightarrow> True | Some t \<Rightarrow> plain t)
       \<longrightarrow> (\<exists>ps. getByClassAt doc_items ''item'' None = Inr ps)"
    by blast+
  from all at have "sorted_wrt (<) (map fst ?ps)"
    "list_all (\<lambda>(p, el). el \<noteq> [] \<and> take (length el) (drop p doc_items) = el) ?ps"
    by blast+
  then have "sorted_wrt (<) (map fst ?ps)"
    "take (length ''<li class=\"item\">Y</li>'') (drop 23 doc_items) = ''<li class=\"item\">Y</li>''"
    by simp_all
  with at plain_item show ?thesis by blast
qed

section \<open>getAttrs\<close>

lemma plain_href: "plain ''href''"
  by (simp add: plain_def in_ranges_def name_rs_def)

lemma getAttr_plain:
  "plain attrName \<Longrightarrow> \<exists>v. getAttr html attrName = Inr v"
  by (simp add: getAttr_def match_i_def RegExp_attr split: option.splits)

lemma getAttrs_plain: "plain attrName \<Longrightarrow> \<exists>vs. getAttrs elements attrName = Inr vs"
proof (induction elements)
  case Nil
  show ?case by simp
next
  case (Cons el elements)
  from getAttr_plain[OF Cons.prems, of el] Cons.IH[OF Cons.prems] show ?case by auto
qed

lemma getAttrs_Inr:
  "getAttrs elements attrName = Inr vs \<Longrightarrow>
     length vs = length elements \<and> (\<forall>i < length elements. getAttr (elements ! i) attrName = Inr (vs ! i))"
proof (induction elements arbitrary: vs)
  case Nil
  then show ?case by simp
next
  case (Cons el elements)
  from Cons.prems obtain v vs' where v: "getAttr el attrName = Inr v"
    and vs': "getAttrs elements attrName = Inr vs'" and vs: "vs = v # vs'"
    by (auto split: sum.splits)
  from Cons.IH[OF vs'] v vs show ?case by (auto simp: nth_Cons split: nat.splits)
qed

lemma getAttrs_Inl:
  "getAttrs elements attrName = Inl e \<Longrightarrow>
     \<exists>i < length elements. getAttr (elements ! i) attrName = Inl e"
proof (induction elements)
  case Nil
  then show ?case by simp
next
  case (Cons el elements)
  show ?case
  proof (cases "getAttr el attrName")
    case (Inl e')
    with Cons.prems have "getAttr ((el # elements) ! 0) attrName = Inl e" by simp
    then show ?thesis by (intro exI[of _ 0]) simp
  next
    case (Inr v)
    with Cons.prems have "getAttrs elements attrName = Inl e" by (auto split: sum.splits)
    from Cons.IH[OF this] obtain i where "i < length elements"
      "getAttr (elements ! i) attrName = Inl e" by blast
    then show ?thesis by (intro exI[of _ "Suc i"]) simp
  qed
qed

text \<open>
  C10 (corrected). The claim fails for an attribute name that is no pattern when
  spliced into the source: for the name \<^verbatim>\<open>(\<close> the call \<^verbatim>\<open>new RegExp\<close> in getAttr
  throws a SyntaxError, and getAttrs returns no sequence.
\<close>

theorem C10_pattern_name_counterexample:
  "getAttrs doc_links ''('' = Inl SyntaxError"
  by code_simp

text \<open>
  C10 as amended: for every list of elements and every plain attribute name
  getAttrs returns; whenever it returns, for any attribute name, the result has
  the length of the list and entry i is what getAttr returns for element i; and
  when it throws, getAttr throws the same for one of the elements.
\<close>

theorem C10_getAttrs_pointwise:
  "(plain attrName \<longrightarrow> (\<exists>vs. getAttrs elements attrName = Inr vs))
   \<and> (\<forall>vs. getAttrs elements attrName = Inr vs \<longrightarrow>
         length vs = length elements
         \<and> (\<forall>i < length elements. getAttr (elements ! i) attrName = Inr (vs ! i)))
   \<and> (\<forall>e. getAttrs elements attrName = Inl e \<longrightarrow>
         (\<exists>i < length elements. getAttr (elements ! i) attrName = Inl e))"
  using getAttrs_plain[of attrName elements] getAttrs_Inr[of elements attrName]
    getAttrs_Inl[of elements attrName]
  by blast

theorem C10_getAttrs_pointwise_witness:
  "plain ''href''
   \<and> getAttrs doc_links ''href'' = Inr [Some ''/x'', None]
   \<and> length [Some ''/x'', None] = length doc_links
   \<and> getAttr (doc_links ! 0) ''href'' = Inr (Some ''/x'')
   \<and> getAttr (doc_links ! 1) ''href'' = Inr None
   \<and> getAttrs doc_links ''('' = Inl SyntaxError
   \<and> getAttr (doc_links ! 0) ''('' = Inl SyntaxError"
proof -
  have r: "getAttrs doc_links ''href'' = Inr [Some ''/x'', None]" by code_simp
  have l: "length doc_links = 2" by (simp add: doc_links_def)
  from C10_getAttrs_pointwise[of "''href''" doc_links] r l
  have "getAttr (doc_links ! 0) ''href'' = Inr ([Some ''/x'', None] ! 0)"
    "getAttr (doc_links ! 1) ''href'' = Inr ([Some ''/x'', None] ! 1)"
    by simp_all
  moreover have "getAttrs doc_links ''('' = Inl SyntaxError" by code_simp
  moreover have "getAttr (doc_links ! 0) ''('' = Inl SyntaxError" by code_simp
  ultimately show ?thesis using r l plain_href by simp
qed

end
